theory Spec2Isabelle
  imports Main "HOL-Library.Sublist"
begin

section \<open>JavaScript primitives used by index.js\<close>

text \<open>
  Strings are lists of characters. The operations below are the ones index.js calls on
  strings: \<^verbatim>\<open>indexOf(ch, pos)\<close>, \<^verbatim>\<open>slice\<close>, \<^verbatim>\<open>endsWith\<close>, \<^verbatim>\<open>split('/')\<close>, \<^verbatim>\<open>join\<close>,
  \<^verbatim>\<open>repeat\<close> and the two global \<^verbatim>\<open>replace\<close> calls. \<^verbatim>\<open>indexOf\<close> answers \<open>-1\<close> when
  the character does not occur, and \<^verbatim>\<open>slice\<close> counts a negative index from the end, as
  in JavaScript.
\<close>

primrec find_from :: "char \<Rightarrow> nat \<Rightarrow> string \<Rightarrow> int" where
  "find_from c k [] = - 1"
| "find_from c k (x # xs) = (if x = c then int k else find_from c (Suc k) xs)"

definition indexOf :: "string \<Rightarrow> char \<Rightarrow> nat \<Rightarrow> int" where
  "indexOf s c pos = find_from c pos (drop pos s)"

definition relIndex :: "nat \<Rightarrow> int \<Rightarrow> nat" where
  "relIndex n k = (if k < 0 then nat (int n + k) else min (nat k) n)"

definition slice :: "string \<Rightarrow> int \<Rightarrow> int \<Rightarrow> string" where
  "slice s start stop =
     (let a = relIndex (length s) start; b = relIndex (length s) stop
      in take (b - a) (drop a s))"

definition sliceFrom :: "string \<Rightarrow> int \<Rightarrow> string" where
  "sliceFrom s start = drop (relIndex (length s) start) s"

definition endsWith :: "string \<Rightarrow> string \<Rightarrow> bool" where
  "endsWith s suf =
     (length suf \<le> length s \<and> drop (length s - length suf) s = suf)"

fun split :: "char \<Rightarrow> string \<Rightarrow> string list" where
  "split sep [] = [[]]"
| "split sep (c # cs) =
     (if c = sep then [] # split sep cs
      else (case split sep cs of [] \<Rightarrow> [[c]] | p # ps \<Rightarrow> (c # p) # ps))"

fun join :: "string \<Rightarrow> string list \<Rightarrow> string" where
  "join sep [] = []"
| "join sep [x] = x"
| "join sep (x # y # ys) = x @ sep @ join sep (y # ys)"

definition repeat :: "string \<Rightarrow> nat \<Rightarrow> string" where
  "repeat s n = concat (replicate n s)"

definition replaceBackslashes :: "string \<Rightarrow> string" where
  "replaceBackslashes s = map (\<lambda>c. if c = CHR 0x5C then CHR ''/'' else c) s"

fun replaceNodeModules :: "string \<Rightarrow> string" where
  "replaceNodeModules [] = []"
| "replaceNodeModules (c # cs) =
     (if prefix ''/node_modules/'' (c # cs)
      then CHR ''/'' # replaceNodeModules (drop 13 cs)
      else c # replaceNodeModules cs)"

definition startsWithAt :: "string \<Rightarrow> bool" where
  "startsWithAt part = (case part of [] \<Rightarrow> False | c # _ \<Rightarrow> c = CHR ''@'')"

section \<open>The lockfile\<close>

text \<open>
  \<^verbatim>\<open>BunLockfile['packages']\<close> maps a location to the array
  \<^verbatim>\<open>[name_version, tarball, package, integrity?]\<close>. index.js reads the first and the third
  element only, so the record keeps these two. The object is the list of its entries in
  the order \<^verbatim>\<open>for (location in packages)\<close> visits them, each key once; \<open>dependencies\<close>
  and \<open>optionalDependencies\<close> are optional objects, again as their entries in order. A
  loop \<^verbatim>\<open>for (location in packages)\<close> that reads \<^verbatim>\<open>packages[location]\<close> is a loop over
  the entries.
\<close>

record package_meta =
  dependencies :: "(string \<times> string) list option"
  optionalDependencies :: "(string \<times> string) list option"

record package_info =
  name_version :: string
  package :: package_meta

type_synonym packages = "(string \<times> package_info) list"

text \<open>
  \<^verbatim>\<open>packages[key]\<close> on the object \<^verbatim>\<open>JSON.parse\<close> built: the entry when the key is an own
  property; otherwise the member of \<^verbatim>\<open>Object.prototype\<close> of that name when there is one
  (a function, or the prototype object itself for \<^verbatim>\<open>__proto__\<close>: a truthy value that is
  not iterable and whose elements \<^verbatim>\<open>[0]\<close> and \<^verbatim>\<open>[2]\<close> are undefined); otherwise
  \<^verbatim>\<open>undefined\<close>. \<^verbatim>\<open>Object.hasOwn\<close> looks at own properties only.
\<close>

datatype 'a property = Undefined | Inherited | Own 'a

definition objectPrototypeKeys :: "string list" where
  "objectPrototypeKeys =
     [''constructor'', ''__defineGetter__'', ''__defineSetter__'', ''hasOwnProperty'',
      ''__lookupGetter__'', ''__lookupSetter__'', ''isPrototypeOf'',
      ''propertyIsEnumerable'', ''toString'', ''valueOf'', ''__proto__'',
      ''toLocaleString'']"

definition getProp :: "packages \<Rightarrow> string \<Rightarrow> package_info property" where
  "getProp pkgs key =
     (case map_of pkgs key of
        Some info \<Rightarrow> Own info
      | None \<Rightarrow> if key \<in> set objectPrototypeKeys then Inherited else Undefined)"

definition hasOwn :: "packages \<Rightarrow> string \<Rightarrow> bool" where
  "hasOwn pkgs key = (map_of pkgs key \<noteq> None)"

datatype error = TypeError | Error string

section \<open>iterateLocations\<close>

text \<open>
  The first loop of \<^verbatim>\<open>iterateLocations\<close> glues a raw segment that starts with \<^verbatim>\<open>@\<close> to
  the segment after it. When no segment follows, \<^verbatim>\<open>raw[++i]\<close> is \<^verbatim>\<open>undefined\<close> and the
  concatenation yields the text \<^verbatim>\<open>undefined\<close>.
\<close>

fun gatherParts :: "string list \<Rightarrow> string list" where
  "gatherParts [] = []"
| "gatherParts [part] =
     (if startsWithAt part then [part @ ''/'' @ ''undefined''] else [part])"
| "gatherParts (part # nxt # raw) =
     (if startsWithAt part then (part @ ''/'' @ nxt) # gatherParts raw
      else part # gatherParts (nxt # raw))"

text \<open>The second loop: \<^verbatim>\<open>for (let i = parts.length; i > 0; i--) yield ...\<close>.\<close>

fun yieldPrefixes :: "string list \<Rightarrow> nat \<Rightarrow> string \<Rightarrow> string list" where
  "yieldPrefixes parts 0 nm = []"
| "yieldPrefixes parts (Suc i) nm =
     (join ''/'' (take (Suc i) parts) @ ''/'' @ nm) # yieldPrefixes parts i nm"

definition iterateLocations :: "string \<Rightarrow> string \<Rightarrow> string list" where
  "iterateLocations dir nm =
     (let parts = gatherParts (split CHR ''/'' dir)
      in yieldPrefixes parts (length parts) nm @ [nm])"

section \<open>readLockfile\<close>

text \<open>
  \<^verbatim>\<open>dependents\<close> is created with \<^verbatim>\<open>{ __proto__: null }\<close>, so it has own properties only:
  a partial map. \<^verbatim>\<open>dependents[maybeLoc] ??= []; dependents[maybeLoc].push(location)\<close>
  is \<open>push\<close>.
\<close>

type_synonym dependents = "string \<rightharpoonup> string list"

definition push :: "dependents \<Rightarrow> string \<Rightarrow> string \<Rightarrow> dependents" where
  "push deps key location =
     deps(key \<mapsto> (case deps key of None \<Rightarrow> [] | Some ls \<Rightarrow> ls) @ [location])"

text \<open>
  The loop \<^verbatim>\<open>for (let maybeLoc of iterateLocations(location, depName))\<close> for one declared
  dependency. \<^verbatim>\<open>satisfies\<close> is the predicate of the semver package, a parameter here.
  A candidate that \<^verbatim>\<open>lockfile.packages\<close> inherits from \<^verbatim>\<open>Object.prototype\<close> passes
  \<^verbatim>\<open>if (info)\<close>, and \<^verbatim>\<open>info[0].indexOf\<close> then throws a TypeError.
\<close>

fun scanCandidates ::
  "(string \<Rightarrow> string \<Rightarrow> bool) \<Rightarrow> packages \<Rightarrow> string \<Rightarrow> string \<Rightarrow> string list \<Rightarrow> dependents
     \<Rightarrow> error + dependents" where
  "scanCandidates satisfies pkgs location rng [] deps = Inr deps"
| "scanCandidates satisfies pkgs location rng (maybeLoc # rest) deps =
     (case getProp pkgs maybeLoc of
        Undefined \<Rightarrow> scanCandidates satisfies pkgs location rng rest deps
      | Inherited \<Rightarrow> Inl TypeError
      | Own info \<Rightarrow>
          (let i = indexOf (name_version info) CHR ''@'' 1 in
           if i > 0 then
             (let depVersion = sliceFrom (name_version info) (i + 1) in
              if satisfies depVersion rng then Inr (push deps maybeLoc location)
              else scanCandidates satisfies pkgs location rng rest deps)
           else scanCandidates satisfies pkgs location rng rest deps))"

text \<open>\<^verbatim>\<open>scanDeps\<close>: the loop over the entries of one dependency object.\<close>

fun scanEntries ::
  "(string \<Rightarrow> string \<Rightarrow> bool) \<Rightarrow> packages \<Rightarrow> string \<Rightarrow> (string \<times> string) list \<Rightarrow> dependents
     \<Rightarrow> error + dependents" where
  "scanEntries satisfies pkgs location [] deps = Inr deps"
| "scanEntries satisfies pkgs location ((depName, rng) # rest) deps =
     (case scanCandidates satisfies pkgs location rng
             (iterateLocations location depName) deps of
        Inl e \<Rightarrow> Inl e
      | Inr deps' \<Rightarrow> scanEntries satisfies pkgs location rest deps')"

definition scanDeps ::
  "(string \<Rightarrow> string \<Rightarrow> bool) \<Rightarrow> packages \<Rightarrow> string \<Rightarrow> (string \<times> string) list option
     \<Rightarrow> dependents \<Rightarrow> error + dependents" where
  "scanDeps satisfies pkgs location ds deps =
     (case ds of
        None \<Rightarrow> Inr deps
      | Some entries \<Rightarrow> scanEntries satisfies pkgs location entries deps)"

text \<open>
  The outer loop \<^verbatim>\<open>for (let location in lockfile.packages)\<close>; \<open>todo\<close> is the rest of
  the entries to visit, \<open>pkgs\<close> the whole object.
\<close>

fun scanPackages ::
  "(string \<Rightarrow> string \<Rightarrow> bool) \<Rightarrow> packages \<Rightarrow> packages \<Rightarrow> dependents \<Rightarrow> error + dependents" where
  "scanPackages satisfies pkgs [] deps = Inr deps"
| "scanPackages satisfies pkgs ((location, info) # todo) deps =
     (case scanDeps satisfies pkgs location (dependencies (package info)) deps of
        Inl e \<Rightarrow> Inl e
      | Inr deps1 \<Rightarrow>
          (case scanDeps satisfies pkgs location (optionalDependencies (package info)) deps1 of
             Inl e \<Rightarrow> Inl e
           | Inr deps2 \<Rightarrow> scanPackages satisfies pkgs todo deps2))"

definition readLockfile ::
  "(string \<Rightarrow> string \<Rightarrow> bool) \<Rightarrow> packages \<Rightarrow> error + (packages \<times> dependents)" where
  "readLockfile satisfies pkgs =
     (case scanPackages satisfies pkgs pkgs Map.empty of
        Inl e \<Rightarrow> Inl e
      | Inr deps \<Rightarrow> Inr (pkgs, deps))"

section \<open>collectLocationsFromSpecs\<close>

text \<open>\<^verbatim>\<open>collected\<close> is a Set: insertion order, no duplicates.\<close>

definition add :: "string \<Rightarrow> string list \<Rightarrow> string list" where
  "add x collected = (if x \<in> set collected then collected else collected @ [x])"

fun byPackageName_loop :: "string \<Rightarrow> packages \<Rightarrow> string list \<Rightarrow> string list" where
  "byPackageName_loop nm [] collected = collected"
| "byPackageName_loop nm ((location, info) # todo) collected =
     (if endsWith location (CHR ''/'' # nm) then
        (let ident = name_version info; i = indexOf ident CHR ''@'' 1 in
         if slice ident 0 i = nm
         then byPackageName_loop nm todo (add location collected)
         else byPackageName_loop nm todo collected)
      else byPackageName_loop nm todo collected)"

definition byPackageName :: "packages \<Rightarrow> string \<Rightarrow> string list \<Rightarrow> string list" where
  "byPackageName pkgs nm collected =
     byPackageName_loop nm pkgs (if hasOwn pkgs nm then add nm collected else collected)"

definition byLocation :: "packages \<Rightarrow> string \<Rightarrow> string list \<Rightarrow> string list" where
  "byLocation pkgs location collected =
     (if hasOwn pkgs location then add location collected else collected)"

fun bySpec_loop ::
  "(string \<Rightarrow> string \<Rightarrow> bool) \<Rightarrow> string \<Rightarrow> string \<Rightarrow> packages \<Rightarrow> string list \<Rightarrow> string list" where
  "bySpec_loop satisfies nm rng [] collected = collected"
| "bySpec_loop satisfies nm rng ((location, info) # todo) collected =
     (let ident = name_version info; i = indexOf ident CHR ''@'' 1 in
      if i > 0 \<and> slice ident 0 i = nm then
        (let version = sliceFrom ident (i + 1) in
         if satisfies version rng
         then bySpec_loop satisfies nm rng todo (add location collected)
         else bySpec_loop satisfies nm rng todo collected)
      else bySpec_loop satisfies nm rng todo collected)"

definition bySpec ::
  "(string \<Rightarrow> string \<Rightarrow> bool) \<Rightarrow> packages \<Rightarrow> string \<Rightarrow> string \<Rightarrow> string list \<Rightarrow> string list" where
  "bySpec satisfies pkgs nm rng collected =
     (if rng = ''*'' then byPackageName pkgs nm collected
      else bySpec_loop satisfies nm rng pkgs collected)"

definition truthy :: "'a property \<Rightarrow> bool" where
  "truthy v = (v \<noteq> Undefined)"

definition invalidSpec :: "string \<Rightarrow> error" where
  "invalidSpec spec =
     Error (''Invalid package spec: '' @ spec @ '', expected '' @ [CHR 0x22] @ ''name@range''
            @ [CHR 0x22] @ '' or '' @ [CHR 0x22] @ ''name'' @ [CHR 0x22])"

text \<open>
  The loop over the specs. \<open>validate spec\<close> stands for
  \<^verbatim>\<open>validate(spec).validForOldPackages\<close> of validate-npm-package-name, a parameter.
\<close>

fun collectSpecs ::
  "(string \<Rightarrow> bool) \<Rightarrow> (string \<Rightarrow> string \<Rightarrow> bool) \<Rightarrow> packages \<Rightarrow> string list \<Rightarrow> string list
     \<Rightarrow> error + string list" where
  "collectSpecs validate satisfies pkgs [] collected = Inr collected"
| "collectSpecs validate satisfies pkgs (spec # specs) collected =
     (if validate spec
      then collectSpecs validate satisfies pkgs specs (byPackageName pkgs spec collected)
      else
        (let maybeLoc = replaceNodeModules (replaceBackslashes spec) in
         if truthy (getProp pkgs maybeLoc)
         then collectSpecs validate satisfies pkgs specs (byLocation pkgs maybeLoc collected)
         else
           (let i = indexOf spec CHR ''@'' 1 in
            if i > 0 then
              collectSpecs validate satisfies pkgs specs
                (bySpec satisfies pkgs (slice spec 0 i)
                   (let r = sliceFrom spec (i + 1) in if r = [] then ''*'' else r)
                   collected)
            else Inl (invalidSpec spec))))"

definition collectLocationsFromSpecs ::
  "(string \<Rightarrow> bool) \<Rightarrow> (string \<Rightarrow> string \<Rightarrow> bool) \<Rightarrow> packages \<Rightarrow> string list
     \<Rightarrow> error + string list" where
  "collectLocationsFromSpecs validate satisfies pkgs specs =
     collectSpecs validate satisfies pkgs specs []"

section \<open>makeWhy and explain\<close>

text \<open>
  A \<^verbatim>\<open>Why\<close> object. \<^verbatim>\<open>makeWhy\<close> returns \<^verbatim>\<open>Why | undefined\<close>, and the \<^verbatim>\<open>dependents\<close> array
  holds what the inner calls of \<^verbatim>\<open>makeWhy\<close> returned, so its elements are optional:
  \<open>None\<close> is \<^verbatim>\<open>undefined\<close>.
\<close>

datatype why =
  Why (why_name: string) (why_version: string) (why_location: string)
      (why_dependents: "why option list")

text \<open>
  \<^verbatim>\<open>makeWhy\<close> recurses through \<^verbatim>\<open>dependents\<close> with no bound, so the model takes fuel: the
  outer \<open>None\<close> says the fuel ran out, that is, the call nests deeper than \<open>fuel\<close>.
  \<open>mapWhy\<close> is \<^verbatim>\<open>Array.prototype.map\<close> with the callback's failure passed on.
  \<^verbatim>\<open>let [id] = packages[location]\<close> throws a TypeError when \<^verbatim>\<open>packages[location]\<close> is not an
  own entry (undefined and the members of \<^verbatim>\<open>Object.prototype\<close> are not iterable).
\<close>

fun mapWhy ::
  "(string \<Rightarrow> (error + why option) option) \<Rightarrow> string list \<Rightarrow> (error + why option list) option" where
  "mapWhy f [] = Some (Inr [])"
| "mapWhy f (loc # locs) =
     (case f loc of
        None \<Rightarrow> None
      | Some (Inl e) \<Rightarrow> Some (Inl e)
      | Some (Inr w) \<Rightarrow>
          (case mapWhy f locs of
             None \<Rightarrow> None
           | Some (Inl e) \<Rightarrow> Some (Inl e)
           | Some (Inr ws) \<Rightarrow> Some (Inr (w # ws))))"

fun makeWhy :: "nat \<Rightarrow> packages \<Rightarrow> dependents \<Rightarrow> string \<Rightarrow> (error + why option) option" where
  "makeWhy 0 pkgs deps location = None"
| "makeWhy (Suc fuel) pkgs deps location =
     (case getProp pkgs location of
        Own info \<Rightarrow>
          (let ident = name_version info; i = indexOf ident CHR ''@'' 1 in
           if i \<le> 0 then Some (Inr None)
           else
             (let nm = slice ident 0 i; version = sliceFrom ident (i + 1) in
              case deps location of
                None \<Rightarrow> Some (Inr (Some (Why nm version location [])))
              | Some locs \<Rightarrow>
                  (case mapWhy (\<lambda>loc. makeWhy fuel pkgs deps loc) locs of
                     None \<Rightarrow> None
                   | Some (Inl e) \<Rightarrow> Some (Inl e)
                   | Some (Inr ws) \<Rightarrow> Some (Inr (Some (Why nm version location ws))))))
      | _ \<Rightarrow> Some (Inl TypeError))"

text \<open>\<^verbatim>\<open>.filter(x => !!x)\<close> on an array of \<^verbatim>\<open>Why | undefined\<close>.\<close>

definition filterDefined :: "why option list \<Rightarrow> why list" where
  "filterDefined ws = List.map_filter (\<lambda>w. w) ws"

definition explain ::
  "nat \<Rightarrow> (string \<Rightarrow> bool) \<Rightarrow> (string \<Rightarrow> string \<Rightarrow> bool) \<Rightarrow> packages \<Rightarrow> string list
     \<Rightarrow> (error + why list) option" where
  "explain fuel validate satisfies lockfile specs =
     (case readLockfile satisfies lockfile of
        Inl e \<Rightarrow> Some (Inl e)
      | Inr (pkgs, deps) \<Rightarrow>
          (case collectLocationsFromSpecs validate satisfies pkgs specs of
             Inl e \<Rightarrow> Some (Inl e)
           | Inr entryPoints \<Rightarrow>
               (case mapWhy (\<lambda>location. makeWhy fuel pkgs deps location) entryPoints of
                  None \<Rightarrow> None
                | Some (Inl e) \<Rightarrow> Some (Inl e)
                | Some (Inr ws) \<Rightarrow> Some (Inr (filterDefined ws)))))"

section \<open>format\<close>

text \<open>
  \<open>dim\<close> wraps its argument in the escape sequences for dimmed text when the terminal has
  colours (\<open>hasColors\<close>), and is the identity otherwise.
\<close>

definition dim :: "bool \<Rightarrow> string \<Rightarrow> string" where
  "dim hasColors str =
     (if hasColors then [CHR 0x1B] @ ''[2m'' @ str @ [CHR 0x1B] @ ''[22m'' else str)"

fun expandParts :: "string list \<Rightarrow> string" where
  "expandParts [] = []"
| "expandParts [part] =
     (if startsWithAt part then ''/node_modules/'' @ part @ ''/'' @ ''undefined''
      else ''/node_modules/'' @ part)"
| "expandParts (part # nxt # parts) =
     (if startsWithAt part then ''/node_modules/'' @ part @ ''/'' @ nxt @ expandParts parts
      else ''/node_modules/'' @ part @ expandParts (nxt # parts))"

definition expandLocation :: "string \<Rightarrow> string" where
  "expandLocation location = sliceFrom (expandParts (split CHR ''/'' location)) 1"

text \<open>
  \<^verbatim>\<open>rangeOf(info, name, version)\<close>; \<open>info\<close> is what \<^verbatim>\<open>packages[why.location]\<close> gave.
  \<^verbatim>\<open>info[2]\<close> throws on \<^verbatim>\<open>undefined\<close>, and is \<^verbatim>\<open>undefined\<close> on a member of
  \<^verbatim>\<open>Object.prototype\<close>, where \<^verbatim>\<open>pkg.dependencies\<close> throws. The result \<open>None\<close> is the
  \<^verbatim>\<open>undefined\<close> of falling off the end.
\<close>

definition rangeIn ::
  "(string \<Rightarrow> string \<Rightarrow> bool) \<Rightarrow> (string \<times> string) list option \<Rightarrow> string \<Rightarrow> string
     \<Rightarrow> string option" where
  "rangeIn satisfies ds nm version =
     (case ds of
        None \<Rightarrow> None
      | Some entries \<Rightarrow>
          map_option snd (find (\<lambda>(dep, rng). dep = nm \<and> satisfies version rng) entries))"

definition rangeOf ::
  "(string \<Rightarrow> string \<Rightarrow> bool) \<Rightarrow> package_info property \<Rightarrow> string \<Rightarrow> string
     \<Rightarrow> error + string option" where
  "rangeOf satisfies info nm version =
     (case info of
        Own i \<Rightarrow>
          (case rangeIn satisfies (dependencies (package i)) nm version of
             Some rng \<Rightarrow> Inr (Some rng)
           | None \<Rightarrow> Inr (rangeIn satisfies (optionalDependencies (package i)) nm version))
      | _ \<Rightarrow> Inl TypeError)"

text \<open>\<^verbatim>\<open>x || '*'\<close> for a string or undefined \<open>x\<close>: the empty string is falsy too.\<close>

definition orStar :: "string option \<Rightarrow> string" where
  "orStar x = (case x of None \<Rightarrow> ''*'' | Some r \<Rightarrow> if r = [] then ''*'' else r)"

text \<open>
  \<^verbatim>\<open>format1(out, packages, why, depth, dependency)\<close>; the new \<open>out\<close> is returned. \<open>why\<close>
  is an element of a \<^verbatim>\<open>dependents\<close> array, so it can be \<^verbatim>\<open>undefined\<close>, and reading
  \<^verbatim>\<open>why.location\<close> or \<^verbatim>\<open>why.name\<close> then throws. \<open>format1_each\<close> is the loop
  \<^verbatim>\<open>for (let dep of why.dependents)\<close>.
\<close>

fun format1 ::
    "bool \<Rightarrow> (string \<Rightarrow> string \<Rightarrow> bool) \<Rightarrow> packages \<Rightarrow> string list \<Rightarrow> why option \<Rightarrow> nat
       \<Rightarrow> why option \<Rightarrow> error + string list"
  and format1_each ::
    "bool \<Rightarrow> (string \<Rightarrow> string \<Rightarrow> bool) \<Rightarrow> packages \<Rightarrow> string list \<Rightarrow> why option list \<Rightarrow> nat
       \<Rightarrow> why \<Rightarrow> error + string list" where
  "format1 hasColors satisfies pkgs out None depth dependency = Inl TypeError"
| "format1 hasColors satisfies pkgs out (Some (Why nm version location ds)) depth dependency =
     (let indent = repeat ''  '' depth in
      case (case dependency of
              Some d \<Rightarrow>
                if depth \<noteq> 0 then
                  (case rangeOf satisfies (getProp pkgs location) (why_name d) (why_version d) of
                     Inl e \<Rightarrow> Inl e
                   | Inr r \<Rightarrow>
                       Inr (out @ [indent @ why_name d @ ''@'' @ orStar r @ '' from '' @ nm
                                   @ ''@'' @ version]))
                else Inr (out @ [[], indent @ nm @ ''@'' @ version])
            | None \<Rightarrow> Inr (out @ [[], indent @ nm @ ''@'' @ version])) of
        Inl e \<Rightarrow> Inl e
      | Inr out1 \<Rightarrow>
          format1_each hasColors satisfies pkgs
            (out1 @ [indent @ dim hasColors (expandLocation location)]) ds (depth + 1)
            (Why nm version location ds))"
| "format1_each hasColors satisfies pkgs out [] depth w = Inr out"
| "format1_each hasColors satisfies pkgs out (dep # ds) depth w =
     (case format1 hasColors satisfies pkgs out dep depth (Some w) of
        Inl e \<Rightarrow> Inl e
      | Inr out' \<Rightarrow> format1_each hasColors satisfies pkgs out' ds depth w)"

text \<open>The loop \<^verbatim>\<open>for (const why of result) format1(lines, packages, why, 0)\<close>.\<close>

fun formatAll ::
  "bool \<Rightarrow> (string \<Rightarrow> string \<Rightarrow> bool) \<Rightarrow> packages \<Rightarrow> string list \<Rightarrow> why list
     \<Rightarrow> error + string list" where
  "formatAll hasColors satisfies pkgs lines [] = Inr lines"
| "formatAll hasColors satisfies pkgs lines (w # result) =
     (case format1 hasColors satisfies pkgs lines (Some w) 0 None of
        Inl e \<Rightarrow> Inl e
      | Inr lines' \<Rightarrow> formatAll hasColors satisfies pkgs lines' result)"

text \<open>
  \<^verbatim>\<open>format(result)\<close>; \<open>result\<close> is \<^verbatim>\<open>Why[] | undefined\<close>. It reads the lockfile again
  (\<open>lockfile\<close>, the same parsed object \<^verbatim>\<open>explain\<close> read).
\<close>

definition format ::
  "bool \<Rightarrow> (string \<Rightarrow> string \<Rightarrow> bool) \<Rightarrow> packages \<Rightarrow> why list option \<Rightarrow> error + string" where
  "format hasColors satisfies lockfile result =
     (case result of
        None \<Rightarrow> Inr []
      | Some [] \<Rightarrow> Inr []
      | Some (w # ws) \<Rightarrow>
          (case readLockfile satisfies lockfile of
             Inl e \<Rightarrow> Inl e
           | Inr (pkgs, deps) \<Rightarrow>
               (case formatAll hasColors satisfies pkgs [] (w # ws) of
                  Inl e \<Rightarrow> Inl e
                | Inr lines \<Rightarrow> Inr (join [CHR 0x0A] (drop 1 lines)))))"

section \<open>Notions of the specification\<close>

text \<open>
  The specification's Location Resolver speaks of the atomic segments of a location: each
  is a plain name or a \<^verbatim>\<open>@scope/name\<close> pair. \<open>atomicDecomposition segs loc\<close> says that
  \<open>segs\<close> is such a decomposition of \<open>loc\<close>, and \<open>resolve_candidates\<close> is the sequence
  the specification asks for: every non-empty prefix of the decomposition, deepest first,
  joined by \<^verbatim>\<open>/\<close> and followed by \<^verbatim>\<open>/\<close> and the dependency name, then the bare name.
\<close>

definition atomicSegment :: "string \<Rightarrow> bool" where
  "atomicSegment seg =
     (case split CHR ''/'' seg of
        [p] \<Rightarrow> \<not> startsWithAt p
      | [scope, nm] \<Rightarrow> startsWithAt scope
      | _ \<Rightarrow> False)"

definition atomicDecomposition :: "string list \<Rightarrow> string \<Rightarrow> bool" where
  "atomicDecomposition segs loc =
     (segs \<noteq> [] \<and> list_all atomicSegment segs \<and> join ''/'' segs = loc)"

definition resolve_candidates :: "string list \<Rightarrow> string \<Rightarrow> string list" where
  "resolve_candidates segs dep =
     map (\<lambda>p. join ''/'' p @ ''/'' @ dep) (rev (tl (prefixes segs))) @ [dep]"

text \<open>
  The specification's Spec Matcher splits a name+range query at the last \<^verbatim>\<open>@\<close> that is not
  the first character; \<open>splitAtLastAt\<close> is that split, with the range \<^verbatim>\<open>*\<close> for an empty
  suffix.
\<close>

definition lastIndexOf :: "string \<Rightarrow> char \<Rightarrow> int" where
  "lastIndexOf s c =
     (let k = find_from c 0 (rev s) in if k < 0 then - 1 else int (length s) - 1 - k)"

definition splitAtLastAt :: "string \<Rightarrow> (string \<times> string) option" where
  "splitAtLastAt spec =
     (let i = lastIndexOf spec CHR ''@'' in
      if i \<ge> 1
      then Some (slice spec 0 i, let r = sliceFrom spec (i + 1) in if r = [] then ''*'' else r)
      else None)"




text \<open>
  The specification's Reverse Index Builder gives the edge of a declaration to the first
  candidate that exists in the lockfile and whose version satisfies the declared range:
  \<open>eligible\<close> is that test on one candidate.
\<close>

definition eligible :: "(string \<Rightarrow> string \<Rightarrow> bool) \<Rightarrow> packages \<Rightarrow> string \<Rightarrow> string \<Rightarrow> bool" where
  "eligible satisfies pkgs rng candidate =
     (case map_of pkgs candidate of
        None \<Rightarrow> False
      | Some info \<Rightarrow>
          (let i = indexOf (name_version info) CHR ''@'' 1
           in i > 0 \<and> satisfies (sliceFrom (name_version info) (i + 1)) rng))"

text \<open>
  The edges of a dependent index, from a location to each of its dependents: the calls
  \<^verbatim>\<open>makeWhy\<close> makes from a location. The index is acyclic when no location reaches itself
  along them. \<open>indexInv\<close> is what \<^verbatim>\<open>readLockfile\<close> keeps true of the index it builds: a key
  of the index is a location of the lockfile whose id has an \<^verbatim>\<open>@\<close> from index 1 on, and
  every dependent is a location of the lockfile.
\<close>

definition dependentEdges :: "dependents \<Rightarrow> (string \<times> string) set" where
  "dependentEdges deps = {(location, d). \<exists>ds. deps location = Some ds \<and> d \<in> set ds}"

definition wellFormedId :: "package_info \<Rightarrow> bool" where
  "wellFormedId info = (indexOf (name_version info) CHR ''@'' 1 > 0)"

definition indexInv :: "packages \<Rightarrow> dependents \<Rightarrow> bool" where
  "indexInv pkgs deps =
     (\<forall>key ds. deps key = Some ds \<longrightarrow>
        (\<exists>info. map_of pkgs key = Some info \<and> wellFormedId info)
        \<and> set ds \<subseteq> fst ` set pkgs)"

text \<open>
  What \<^verbatim>\<open>makeWhy\<close> is to return for a location, read off the lockfile and the index:
  \<^verbatim>\<open>undefined\<close> when the id of the location's record has no \<^verbatim>\<open>@\<close> from index 1 on;
  otherwise a Why-node that carries the name and the version cut from the id, the location
  itself, and one entry for each dependent the index lists for the location, in the
  index's order, each entry being what is to be returned for that dependent.
\<close>

fun resultFor :: "packages \<Rightarrow> dependents \<Rightarrow> string \<Rightarrow> why option \<Rightarrow> bool"
  and resultsFor :: "packages \<Rightarrow> dependents \<Rightarrow> string list \<Rightarrow> why option list \<Rightarrow> bool" where
  "resultFor pkgs deps location None =
     (case map_of pkgs location of
        None \<Rightarrow> False
      | Some info \<Rightarrow> \<not> wellFormedId info)"
| "resultFor pkgs deps location (Some (Why nm version loc ws)) =
     (case map_of pkgs location of
        None \<Rightarrow> False
      | Some info \<Rightarrow>
          wellFormedId info
          \<and> nm = slice (name_version info) 0 (indexOf (name_version info) CHR ''@'' 1)
          \<and> version = sliceFrom (name_version info) (indexOf (name_version info) CHR ''@'' 1 + 1)
          \<and> loc = location
          \<and> resultsFor pkgs deps (case deps location of None \<Rightarrow> [] | Some ls \<Rightarrow> ls) ws)"
| "resultsFor pkgs deps [] [] = True"
| "resultsFor pkgs deps (l # ls) (w # ws) =
     (resultFor pkgs deps l w \<and> resultsFor pkgs deps ls ws)"
| "resultsFor pkgs deps [] (w # ws) = False"
| "resultsFor pkgs deps (l # ls) [] = False"

text \<open>
  The specification's data model: a location is a \<^verbatim>\<open>/\<close>-delimited path of package names.
  \<open>validate\<close> says what a package name is.
\<close>

definition isLocation :: "(string \<Rightarrow> bool) \<Rightarrow> string \<Rightarrow> bool" where
  "isLocation validate key =
     (\<exists>names. names \<noteq> [] \<and> list_all validate names \<and> join ''/'' names = key)"

section \<open>Example lockfiles\<close>

definition entry ::
  "string \<Rightarrow> (string \<times> string) list option \<Rightarrow> (string \<times> string) list option \<Rightarrow> package_info" where
  "entry ident ds os =
     \<lparr>name_version = ident, package = \<lparr>dependencies = ds, optionalDependencies = os\<rparr>\<rparr>"

text \<open>
  The lockfile of the specification's end-to-end scenario:
  \<^verbatim>\<open>{"foo": ["foo@1.0.0", "", {"dependencies": {"bar": "^1.0.0"}}],
    "foo/bar": ["bar@1.2.0", "", {}]}\<close>.
\<close>

definition scenario :: packages where
  "scenario =
     [(''foo'', entry ''foo@1.0.0'' (Some [(''bar'', ''^1.0.0'')]) None),
      (''foo/bar'', entry ''bar@1.2.0'' None None)]"

text \<open>
  The two collaborators, semver's \<^verbatim>\<open>satisfies\<close> and validate-npm-package-name, are parameters
  of the model. An example fixes them by a finite table: the facts of semver and the valid
  names that the example's run asks for.
\<close>

definition semverFacts :: "(string \<times> string) list \<Rightarrow> string \<Rightarrow> string \<Rightarrow> bool" where
  "semverFacts facts version rng = ((version, rng) \<in> set facts)"

definition validNames :: "string list \<Rightarrow> string \<Rightarrow> bool" where
  "validNames names spec = (spec \<in> set names)"

text \<open>
  \<^verbatim>\<open>{"bad": ["bad", "", {"dependencies": {"bar": "*"}}], "bar": ["bar@1.2.0", "", {}]}\<close>:
  the id of \<^verbatim>\<open>bad\<close> has no \<^verbatim>\<open>@\<close>, and \<^verbatim>\<open>bad\<close> depends on \<^verbatim>\<open>bar\<close>.
\<close>

definition malformed_dependent :: packages where
  "malformed_dependent =
     [(''bad'', entry ''bad'' (Some [(''bar'', ''*'')]) None),
      (''bar'', entry ''bar@1.2.0'' None None)]"

text \<open>
  \<^verbatim>\<open>{"foo": ["foo@1.0.0", "", {"optionalDependencies": {"constructor": "^1.0.0"}}]}\<close>:
  an optional dependency that is not installed, named like a member of
  \<^verbatim>\<open>Object.prototype\<close>.
\<close>

definition prototype_dependency :: packages where
  "prototype_dependency =
     [(''foo'', entry ''foo@1.0.0'' None (Some [(''constructor'', ''^1.0.0'')]))]"

text \<open>\<^verbatim>\<open>bar\<close> installed twice: hoisted at the root, and nested under \<^verbatim>\<open>foo\<close>.\<close>

definition hoisted_and_nested :: packages where
  "hoisted_and_nested =
     [(''bar'', entry ''bar@1.0.0'' None None),
      (''foo'', entry ''foo@1.0.0'' (Some [(''bar'', ''^2.0.0'')]) None),
      (''foo/bar'', entry ''bar@2.0.0'' None None)]"

text \<open>An object with the key \<^verbatim>\<open>bar@*\<close>, which is not a location.\<close>

definition star_key :: packages where
  "star_key =
     [(''bar'', entry ''bar@1.0.0'' None None),
      (''bar@*'', entry ''baz@1.0.0'' None None)]"

text \<open>A scoped package nested under \<^verbatim>\<open>foo\<close>.\<close>

definition nested_scoped :: packages where
  "nested_scoped =
     [(''foo'', entry ''foo@1.0.0'' (Some [(''@s/bar'', ''^1.0.0'')]) None),
      (''foo/@s/bar'', entry ''@s/bar@1.0.0'' None None)]"

text \<open>Two packages that depend on each other.\<close>

definition mutual_dependency :: packages where
  "mutual_dependency =
     [(''a'', entry ''a@1.0.0'' (Some [(''b'', ''*'')]) None),
      (''b'', entry ''b@1.0.0'' (Some [(''a'', ''*'')]) None)]"

section \<open>Facts about the string primitives\<close>

lemma split_not_Nil: "split sep s \<noteq> []"
  by (induction s) (auto split: list.splits)

lemma split_append: "split sep (a @ sep # b) = split sep a @ split sep b"
  by (induction a) (auto split: list.splits simp: split_not_Nil)

lemma join_split: "join [sep] (split sep s) = s"
proof (induction s)
  case Nil
  then show ?case by simp
next
  case (Cons c cs)
  then show ?case
    by (cases "split sep cs"; cases "tl (split sep cs)") (auto split: list.splits)
qed

lemma find_from_notin: "c \<notin> set xs \<Longrightarrow> find_from c k xs = - 1"
  by (induction xs arbitrary: k) auto

lemma find_from_first: "c \<notin> set xs \<Longrightarrow> find_from c k (xs @ c # ys) = int (k + length xs)"
  by (induction xs arbitrary: k) auto

lemma indexOf_first:
  assumes "nm \<noteq> []" and "c \<notin> set (tl nm)"
  shows "indexOf (nm @ c # rest) c (Suc 0) = int (length nm)"
proof -
  from assms(1) obtain x xs where nm: "nm = x # xs"
    by (cases nm) auto
  with assms(2) have "c \<notin> set xs"
    by simp
  then show ?thesis
    by (simp add: indexOf_def nm find_from_first)
qed

lemma indexOf_none:
  assumes "c \<notin> set (tl s)"
  shows "indexOf s c (Suc 0) = - 1"
  using assms by (cases s) (simp_all add: indexOf_def find_from_notin)

lemma slice_prefix: "slice (nm @ rest) 0 (int (length nm)) = nm"
  by (simp add: slice_def relIndex_def)

lemma sliceFrom_suffix: "sliceFrom (nm @ c # rest) (int (length nm) + 1) = rest"
  by (simp add: sliceFrom_def relIndex_def nat_add_distrib)

lemma at_replaceBackslashes: "CHR ''@'' \<in> set s \<Longrightarrow> CHR ''@'' \<in> set (replaceBackslashes s)"
  by (force simp: replaceBackslashes_def)

lemma at_replaceNodeModules: "CHR ''@'' \<in> set s \<Longrightarrow> CHR ''@'' \<in> set (replaceNodeModules s)"
proof (induction s rule: replaceNodeModules.induct)
  case 1
  then show ?case by simp
next
  case (2 c cs)
  show ?case
  proof (cases "prefix ''/node_modules/'' (c # cs)")
    case True
    then obtain rest where r: "c # cs = ''/node_modules/'' @ rest"
      by (auto simp: prefix_def)
    then have "drop 13 cs = rest"
      by auto
    moreover from r "2.prems" have "CHR ''@'' \<in> set rest"
      by (auto simp del: append.simps dest!: arg_cong[where f=set])
    ultimately have "CHR ''@'' \<in> set (replaceNodeModules (drop 13 cs))"
      using "2.IH"(1)[OF True] by simp
    moreover have "replaceNodeModules (c # cs) = CHR ''/'' # replaceNodeModules (drop 13 cs)"
      using True by (simp only: replaceNodeModules.simps if_True)
    ultimately show ?thesis
      by simp
  next
    case False
    then have "replaceNodeModules (c # cs) = c # replaceNodeModules cs"
      by (simp only: replaceNodeModules.simps if_False)
    with False "2.IH"(2) "2.prems" show ?thesis
      by auto
  qed
qed

lemma not_prototype_key: "CHR ''@'' \<in> set key \<Longrightarrow> key \<notin> set objectPrototypeKeys"
  by (auto simp: objectPrototypeKeys_def)

lemma replaceBackslashes_at_star:
  "replaceBackslashes (n @ ''@*'') = replaceBackslashes n @ ''@*''"
  by (simp add: replaceBackslashes_def)

lemma replaceNodeModules_at_star:
  "replaceNodeModules (s @ ''@*'') = replaceNodeModules s @ ''@*''"
proof (induction s rule: replaceNodeModules.induct)
  case 1
  show ?case by simp
next
  case (2 c cs)
  show ?case
  proof (cases "prefix ''/node_modules/'' (c # cs)")
    case True
    then obtain rest where r: "c # cs = ''/node_modules/'' @ rest"
      by (auto simp: prefix_def)
    then have d: "drop 13 (cs @ ''@*'') = drop 13 cs @ ''@*''"
      by auto
    from True have p: "prefix ''/node_modules/'' ((c # cs) @ ''@*'')"
      by (rule prefix_prefix)
    have "replaceNodeModules ((c # cs) @ ''@*'')
            = CHR ''/'' # replaceNodeModules (drop 13 (cs @ ''@*''))"
      using p by (simp only: append_Cons replaceNodeModules.simps if_True)
    moreover have "replaceNodeModules (c # cs) = CHR ''/'' # replaceNodeModules (drop 13 cs)"
      using True by (simp only: replaceNodeModules.simps if_True)
    ultimately show ?thesis
      using "2.IH"(1)[OF True] d by simp
  next
    case False
    have np: "\<not> prefix ''/node_modules/'' ((c # cs) @ ''@*'')"
    proof
      assume "prefix ''/node_modules/'' ((c # cs) @ ''@*'')"
      then have "prefix ''/node_modules/'' (c # cs)
          \<or> (\<exists>us. ''/node_modules/'' = (c # cs) @ us \<and> prefix us ''@*'')"
        by (simp only: prefix_append)
      with False obtain us where u: "''/node_modules/'' = (c # cs) @ us" and pu: "prefix us ''@*''"
        by blast
      from u False have "us \<noteq> []"
        by (metis append_Nil2 prefix_order.order_refl)
      with pu obtain vs where "us = CHR ''@'' # vs"
        by (cases us) (auto simp: prefix_Cons)
      with u have "CHR ''@'' \<in> set ''/node_modules/''"
        by (metis in_set_conv_decomp)
      then show False by simp
    qed
    have "replaceNodeModules ((c # cs) @ ''@*'') = c # replaceNodeModules (cs @ ''@*'')"
      using np by (simp only: append_Cons replaceNodeModules.simps if_False)
    moreover have "replaceNodeModules (c # cs) = c # replaceNodeModules cs"
      using False by (simp only: replaceNodeModules.simps if_False)
    ultimately show ?thesis
      using "2.IH"(2)[OF False] by simp
  qed
qed

lemma endsWith_append: "endsWith (s @ suf) suf"
  by (simp add: endsWith_def)

text \<open>The definitions a run on a concrete lockfile unfolds.\<close>

lemmas run_defs = explain_def readLockfile_def scanDeps_def collectLocationsFromSpecs_def
  byPackageName_def byLocation_def bySpec_def hasOwn_def getProp_def add_def entry_def
  indexOf_def slice_def sliceFrom_def relIndex_def endsWith_def iterateLocations_def
  startsWithAt_def push_def filterDefined_def List.map_filter_def truthy_def
  objectPrototypeKeys_def replaceBackslashes_def semverFacts_def validNames_def Let_def

lemmas format_defs = format_def rangeOf_def rangeIn_def orStar_def repeat_def dim_def
  expandLocation_def

section \<open>The Location Resolver\<close>

lemma gatherParts_atomic:
  assumes "atomicSegment seg"
  shows "gatherParts (split CHR ''/'' seg @ raw) = seg # gatherParts raw"
proof -
  have j: "join ''/'' (split CHR ''/'' seg) = seg"
    by (rule join_split)
  show ?thesis
  proof (cases "split CHR ''/'' seg")
    case Nil
    then show ?thesis by (simp add: split_not_Nil)
  next
    case outer: (Cons p ps)
    show ?thesis
    proof (cases ps)
      case Nil
      with outer assms j show ?thesis
        by (cases raw) (auto simp: atomicSegment_def)
    next
      case (Cons q qs)
      with outer assms j show ?thesis
        by (cases qs) (auto simp: atomicSegment_def)
    qed
  qed
qed

lemma gatherParts_join:
  "list_all atomicSegment segs \<Longrightarrow> segs \<noteq> [] \<Longrightarrow>
   gatherParts (split CHR ''/'' (join ''/'' segs)) = segs"
proof (induction segs)
  case Nil
  then show ?case by simp
next
  case (Cons s rest)
  show ?case
  proof (cases rest)
    case Nil
    with Cons.prems show ?thesis
      using gatherParts_atomic[of s "[]"] by simp
  next
    case (Cons t ts)
    with Cons.prems Cons.IH show ?thesis
      using gatherParts_atomic[of s "split CHR ''/'' (join ''/'' (t # ts))"]
      by (simp add: split_append)
  qed
qed

lemma yieldPrefixes_prefixes:
  "n \<le> length parts \<Longrightarrow>
   yieldPrefixes parts n nm =
     map (\<lambda>p. join ''/'' p @ ''/'' @ nm) (rev (tl (prefixes (take n parts))))"
proof (induction n)
  case 0
  then show ?case by simp
next
  case (Suc n)
  then have "take (Suc n) parts = take n parts @ [parts ! n]"
    by (simp add: take_Suc_conv_app_nth)
  then have "prefixes (take (Suc n) parts) = prefixes (take n parts) @ [take (Suc n) parts]"
    by (metis prefixes_snoc)
  with Suc show ?case by (simp del: take_Suc_Cons)
qed

text \<open>
  C5. For a location with atomic-segment decomposition \<open>segs\<close> (a \<^verbatim>\<open>@scope/name\<close> pair
  being one segment) and a dependency name, \<^verbatim>\<open>iterateLocations\<close> yields exactly: for each
  prefix of \<open>segs\<close> from the deepest to the shallowest, the prefix joined by \<^verbatim>\<open>/\<close>, then
  \<^verbatim>\<open>/\<close> and the dependency name; and last the bare dependency name.
\<close>

theorem iterateLocations_candidates:
  "atomicDecomposition segs loc \<Longrightarrow> iterateLocations loc dep = resolve_candidates segs dep"
  using gatherParts_join[of segs] yieldPrefixes_prefixes[of "length segs" segs dep]
  by (auto simp: atomicDecomposition_def iterateLocations_def resolve_candidates_def)

text \<open>
  The two examples of the specification: \<^verbatim>\<open>a/b/c\<close> with \<^verbatim>\<open>d\<close>, and \<^verbatim>\<open>a/@s/b\<close> with
  \<^verbatim>\<open>d\<close>, where \<^verbatim>\<open>@s/b\<close> is one segment.
\<close>

theorem iterateLocations_candidates_witness:
  "atomicDecomposition [''a'', ''b'', ''c''] ''a/b/c''
   \<and> iterateLocations ''a/b/c'' ''d'' = [''a/b/c/d'', ''a/b/d'', ''a/d'', ''d'']
   \<and> atomicDecomposition [''a'', ''@s/b''] ''a/@s/b''
   \<and> iterateLocations ''a/@s/b'' ''d'' = [''a/@s/b/d'', ''a/d'', ''d'']"
proof -
  have d1: "atomicDecomposition [''a'', ''b'', ''c''] ''a/b/c''"
    by (simp add: atomicDecomposition_def atomicSegment_def startsWithAt_def)
  have d2: "atomicDecomposition [''a'', ''@s/b''] ''a/@s/b''"
    by (simp add: atomicDecomposition_def atomicSegment_def startsWithAt_def)
  have r1: "resolve_candidates [''a'', ''b'', ''c''] ''d'' = [''a/b/c/d'', ''a/b/d'', ''a/d'', ''d'']"
    by (simp add: resolve_candidates_def)
  have r2: "resolve_candidates [''a'', ''@s/b''] ''d'' = [''a/@s/b/d'', ''a/d'', ''d'']"
    by (simp add: resolve_candidates_def)
  show ?thesis
    using d1 d2 r1 r2
      iterateLocations_candidates[OF d1, of "''d''"]
      iterateLocations_candidates[OF d2, of "''d''"]
    by simp
qed

text \<open>
  A location that ends in a lone \<^verbatim>\<open>@scope\<close> segment has no atomic-segment decomposition.
  There \<^verbatim>\<open>raw[++i]\<close> is \<^verbatim>\<open>undefined\<close>, and the first candidate carries that word.
\<close>

lemma iterateLocations_lone_scope:
  "iterateLocations ''a/@s'' ''d'' = [''a/@s/undefined/d'', ''a/d'', ''d'']"
  by (simp add: iterateLocations_def startsWithAt_def)

section \<open>The end-to-end scenario\<close>

lemma scenario_readLockfile:
  assumes "satisfies ''1.2.0'' ''^1.0.0''"
  shows "readLockfile satisfies scenario = Inr (scenario, [''foo/bar'' \<mapsto> [''foo'']])"
  using assms by (simp add: scenario_def run_defs)

lemma scenario_collect:
  assumes "validate ''bar''"
  shows "collectLocationsFromSpecs validate satisfies scenario [''bar''] = Inr [''foo/bar'']"
  using assms by (simp add: scenario_def run_defs)

lemma scenario_makeWhy:
  "makeWhy (Suc (Suc fuel)) scenario [''foo/bar'' \<mapsto> [''foo'']] ''foo/bar''
     = Some (Inr (Some (Why ''bar'' ''1.2.0'' ''foo/bar''
                          [Some (Why ''foo'' ''1.0.0'' ''foo'' [])])))"
  by (simp add: scenario_def run_defs)

text \<open>
  C1, as the code has it. On the scenario's lockfile, with \<^verbatim>\<open>bar\<close> a valid name and
  \<^verbatim>\<open>1.2.0\<close> satisfying \<^verbatim>\<open>^1.0.0\<close>, \<^verbatim>\<open>explain(["bar"])\<close> returns (at any nesting bound of
  two or more) one Why-node for \<^verbatim>\<open>foo/bar\<close> whose dependents hold a Why-node for \<^verbatim>\<open>foo\<close>,
  and \<^verbatim>\<open>format\<close> renders \<^verbatim>\<open>bar@1.2.0\<close>, its expanded path, the indented line
  \<^verbatim>\<open>bar@^1.0.0 from foo@1.0.0\<close> (the dependency's name, with the range \<^verbatim>\<open>foo\<close> declares on
  it), and the indented path of \<^verbatim>\<open>foo\<close>.
\<close>

theorem scenario_explain_format:
  assumes "validate ''bar''" and "satisfies ''1.2.0'' ''^1.0.0''"
  shows "explain (Suc (Suc fuel)) validate satisfies scenario [''bar'']
           = Some (Inr [Why ''bar'' ''1.2.0'' ''foo/bar'' [Some (Why ''foo'' ''1.0.0'' ''foo'' [])]])
         \<and> format hasColors satisfies scenario
             (Some [Why ''bar'' ''1.2.0'' ''foo/bar'' [Some (Why ''foo'' ''1.0.0'' ''foo'' [])]])
           = Inr (join [CHR 0x0A]
               [''bar@1.2.0'',
                dim hasColors ''node_modules/foo/node_modules/bar'',
                ''  bar@^1.0.0 from foo@1.0.0'',
                ''  '' @ dim hasColors ''node_modules/foo''])"
proof -
  have e: "explain (Suc (Suc fuel)) validate satisfies scenario [''bar'']
           = Some (Inr [Why ''bar'' ''1.2.0'' ''foo/bar'' [Some (Why ''foo'' ''1.0.0'' ''foo'' [])]])"
    unfolding explain_def using assms
    by (simp add: scenario_readLockfile[of satisfies] scenario_collect[of validate satisfies]
        scenario_makeWhy filterDefined_def List.map_filter_def del: makeWhy.simps)
  have f: "formatAll hasColors satisfies scenario []
             [Why ''bar'' ''1.2.0'' ''foo/bar'' [Some (Why ''foo'' ''1.0.0'' ''foo'' [])]]
           = Inr [[], ''bar@1.2.0'',
                dim hasColors ''node_modules/foo/node_modules/bar'',
                ''  bar@^1.0.0 from foo@1.0.0'',
                ''  '' @ dim hasColors ''node_modules/foo'']"
    using assms(2)
    by (simp add: scenario_def entry_def getProp_def rangeOf_def rangeIn_def orStar_def
        repeat_def expandLocation_def sliceFrom_def relIndex_def startsWithAt_def)
  show ?thesis
    using e f assms by (simp add: format_def scenario_readLockfile[of satisfies])
qed

theorem scenario_explain_format_witness:
  "validNames [''bar''] ''bar''
   \<and> semverFacts [(''1.2.0'', ''^1.0.0'')] ''1.2.0'' ''^1.0.0''
   \<and> explain 2 (validNames [''bar'']) (semverFacts [(''1.2.0'', ''^1.0.0'')]) scenario [''bar'']
       = Some (Inr [Why ''bar'' ''1.2.0'' ''foo/bar'' [Some (Why ''foo'' ''1.0.0'' ''foo'' [])]])
   \<and> format False (semverFacts [(''1.2.0'', ''^1.0.0'')]) scenario
        (Some [Why ''bar'' ''1.2.0'' ''foo/bar'' [Some (Why ''foo'' ''1.0.0'' ''foo'' [])]])
       = Inr ''bar@1.2.0\<newline>node_modules/foo/node_modules/bar\<newline>  bar@^1.0.0 from foo@1.0.0\<newline>  node_modules/foo''"
proof -
  have v: "validNames [''bar''] ''bar''"
    by (simp add: validNames_def)
  have s: "semverFacts [(''1.2.0'', ''^1.0.0'')] ''1.2.0'' ''^1.0.0''"
    by (simp add: semverFacts_def)
  show ?thesis
    using v s
      scenario_explain_format[of "validNames [''bar'']"
        "semverFacts [(''1.2.0'', ''^1.0.0'')]" 0 False]
    by (simp add: dim_def numeral_2_eq_2 del: makeWhy.simps)
qed

text \<open>
  C1 as the specification states it fails: the indented line of the scenario's output is
  \<^verbatim>\<open>bar@^1.0.0 from foo@1.0.0\<close>, and no line of the output is
  \<^verbatim>\<open>foo@^1.0.0 from foo@1.0.0\<close>.
\<close>

theorem scenario_line_counterexample:
  "explain 2 (validNames [''bar'']) (semverFacts [(''1.2.0'', ''^1.0.0'')]) scenario [''bar'']
     = Some (Inr [Why ''bar'' ''1.2.0'' ''foo/bar'' [Some (Why ''foo'' ''1.0.0'' ''foo'' [])]])
   \<and> format False (semverFacts [(''1.2.0'', ''^1.0.0'')]) scenario
        (Some [Why ''bar'' ''1.2.0'' ''foo/bar'' [Some (Why ''foo'' ''1.0.0'' ''foo'' [])]])
     = Inr ''bar@1.2.0\<newline>node_modules/foo/node_modules/bar\<newline>  bar@^1.0.0 from foo@1.0.0\<newline>  node_modules/foo''
   \<and> ''  foo@^1.0.0 from foo@1.0.0''
        \<notin> set (split CHR 0x0A ''bar@1.2.0\<newline>node_modules/foo/node_modules/bar\<newline>  bar@^1.0.0 from foo@1.0.0\<newline>  node_modules/foo'')"
  by (simp add: scenario_def run_defs format_defs numeral_2_eq_2)

section \<open>The empty query\<close>

text \<open>
  Once \<^verbatim>\<open>readLockfile\<close> has returned, \<^verbatim>\<open>explain([])\<close> returns the empty array, at any
  nesting bound; \<^verbatim>\<open>format\<close> of the empty array and of \<^verbatim>\<open>undefined\<close> is the empty string.
\<close>

lemma explain_empty_after_read:
  "readLockfile satisfies lockfile = Inr (pkgs, deps) \<Longrightarrow>
   explain fuel validate satisfies lockfile [] = Some (Inr [])"
  by (simp add: explain_def collectLocationsFromSpecs_def filterDefined_def
      List.map_filter_def)

lemma format_empty:
  "format hasColors satisfies lockfile (Some []) = Inr []
   \<and> format hasColors satisfies lockfile None = Inr []"
  by (simp add: format_def)

text \<open>
  C9 fails in the code: \<^verbatim>\<open>explain([])\<close> does not return the empty array on every lockfile.
  On the lockfile whose optional dependency \<^verbatim>\<open>constructor\<close> is not installed,
  \<^verbatim>\<open>readLockfile\<close> throws a TypeError before the specs are looked at, and \<^verbatim>\<open>explain([])\<close>
  throws with it.
\<close>

theorem explain_empty_throws:
  "explain fuel validate satisfies prototype_dependency [] = Some (Inl TypeError)"
  by (simp add: prototype_dependency_def run_defs)

section \<open>The Spec Matcher\<close>

lemma collectSpecs_append:
  "collectSpecs validate satisfies pkgs (xs @ ys) collected =
     (case collectSpecs validate satisfies pkgs xs collected of
        Inl e \<Rightarrow> Inl e
      | Inr collected' \<Rightarrow> collectSpecs validate satisfies pkgs ys collected')"
  by (induction xs arbitrary: collected) (auto simp: Let_def)

lemma readLockfile_packages:
  "readLockfile satisfies lockfile = Inr (pkgs, deps) \<Longrightarrow> pkgs = lockfile"
  by (auto simp: readLockfile_def split: sum.splits)

lemma collectSpecs_name_range:
  assumes "\<not> validate spec"
    and "getProp pkgs (replaceNodeModules (replaceBackslashes spec)) = Undefined"
    and "spec = nm @ CHR ''@'' # rng" and "nm \<noteq> []" and "CHR ''@'' \<notin> set (tl nm)"
  shows "collectSpecs validate satisfies pkgs (spec # specs) collected =
           collectSpecs validate satisfies pkgs specs
             (bySpec satisfies pkgs nm (if rng = [] then ''*'' else rng) collected)"
proof -
  from assms have i: "indexOf spec CHR ''@'' (Suc 0) = int (length nm)"
    by (simp add: indexOf_first)
  from assms have "slice spec 0 (int (length nm)) = nm"
    and "sliceFrom spec (int (length nm) + 1) = rng"
    by (simp_all add: slice_prefix sliceFrom_suffix)
  with assms i show ?thesis
    by (simp add: truthy_def Let_def)
qed

lemma collectSpecs_invalid:
  assumes "\<not> validate spec"
    and "getProp pkgs (replaceNodeModules (replaceBackslashes spec)) = Undefined"
    and "CHR ''@'' \<notin> set (tl spec)"
  shows "collectSpecs validate satisfies pkgs (spec # specs) collected = Inl (invalidSpec spec)"
proof -
  from assms(3) have "indexOf spec CHR ''@'' (Suc 0) = - 1"
    by (rule indexOf_none)
  with assms show ?thesis
    by (simp add: truthy_def)
qed

text \<open>
  C6, as the code has it. Take a spec that is not a valid bare name and whose normalised
  form is neither a key of the lockfile nor the name of a member of \<^verbatim>\<open>Object.prototype\<close>,
  reached after the specs \<open>before\<close> were collected without an error. If the spec has an
  \<^verbatim>\<open>@\<close> at an index from 1 on, it is split at the first such \<^verbatim>\<open>@\<close> into a name and a
  range (\<^verbatim>\<open>*\<close> when nothing follows the \<^verbatim>\<open>@\<close>) and matched by \<open>bySpec\<close>. If it has none,
  \<^verbatim>\<open>collectLocationsFromSpecs\<close> throws the error that names the expected
  \<^verbatim>\<open>"name@range"\<close> or \<^verbatim>\<open>"name"\<close>, and the whole \<^verbatim>\<open>explain\<close> call fails with it.
\<close>

theorem spec_first_at_or_error:
  assumes "\<not> validate spec"
    and "getProp pkgs (replaceNodeModules (replaceBackslashes spec)) = Undefined"
    and "collectLocationsFromSpecs validate satisfies pkgs before = Inr collected"
  shows "(spec = nm @ CHR ''@'' # rng \<and> nm \<noteq> [] \<and> CHR ''@'' \<notin> set (tl nm) \<longrightarrow>
            collectLocationsFromSpecs validate satisfies pkgs (before @ spec # after) =
              collectSpecs validate satisfies pkgs after
                (bySpec satisfies pkgs nm (if rng = [] then ''*'' else rng) collected))
       \<and> (CHR ''@'' \<notin> set (tl spec) \<longrightarrow>
            collectLocationsFromSpecs validate satisfies pkgs (before @ spec # after)
              = Inl (invalidSpec spec)
            \<and> (readLockfile satisfies pkgs = Inr (pkgs, deps) \<longrightarrow>
                 explain fuel validate satisfies pkgs (before @ spec # after)
                   = Some (Inl (invalidSpec spec))))"
proof -
  have step: "collectLocationsFromSpecs validate satisfies pkgs (before @ spec # after) =
                collectSpecs validate satisfies pkgs (spec # after) collected"
    using assms(3) by (simp add: collectLocationsFromSpecs_def collectSpecs_append)
  show ?thesis
  proof (intro conjI impI)
    assume "spec = nm @ CHR ''@'' # rng \<and> nm \<noteq> [] \<and> CHR ''@'' \<notin> set (tl nm)"
    then show "collectLocationsFromSpecs validate satisfies pkgs (before @ spec # after) =
              collectSpecs validate satisfies pkgs after
                (bySpec satisfies pkgs nm (if rng = [] then ''*'' else rng) collected)"
      using assms(1,2) step
        collectSpecs_name_range[where validate = validate and spec = spec and pkgs = pkgs
          and nm = nm and rng = rng and satisfies = satisfies and specs = after
          and collected = collected]
      by simp
  next
    assume no_at: "CHR ''@'' \<notin> set (tl spec)"
    then show err: "collectLocationsFromSpecs validate satisfies pkgs (before @ spec # after)
              = Inl (invalidSpec spec)"
      using assms(1,2) step
        collectSpecs_invalid[where validate = validate and spec = spec and pkgs = pkgs
          and satisfies = satisfies and specs = after and collected = collected]
      by simp
    assume "readLockfile satisfies pkgs = Inr (pkgs, deps)"
    with err show "explain fuel validate satisfies pkgs (before @ spec # after)
                   = Some (Inl (invalidSpec spec))"
      by (simp add: explain_def)
  qed
qed

theorem spec_first_at_or_error_witness:
  "\<not> validNames [''bar''] ''bar@^1.0.0''
   \<and> getProp scenario (replaceNodeModules (replaceBackslashes ''bar@^1.0.0'')) = Undefined
   \<and> collectLocationsFromSpecs (validNames [''bar'']) (semverFacts [(''1.2.0'', ''^1.0.0'')])
        scenario [] = Inr []
   \<and> collectLocationsFromSpecs (validNames [''bar'']) (semverFacts [(''1.2.0'', ''^1.0.0'')])
        scenario [''bar@^1.0.0''] = Inr [''foo/bar'']
   \<and> \<not> validNames [''bar''] ''bar baz''
   \<and> getProp scenario (replaceNodeModules (replaceBackslashes ''bar baz'')) = Undefined
   \<and> CHR ''@'' \<notin> set (tl ''bar baz'')
   \<and> readLockfile (semverFacts [(''1.2.0'', ''^1.0.0'')]) scenario
        = Inr (scenario, [''foo/bar'' \<mapsto> [''foo'']])
   \<and> explain 2 (validNames [''bar'']) (semverFacts [(''1.2.0'', ''^1.0.0'')]) scenario
        [''bar baz''] = Some (Inl (invalidSpec ''bar baz''))"
proof -
  let ?v = "validNames [''bar'']" and ?s = "semverFacts [(''1.2.0'', ''^1.0.0'')]"
  have v1: "\<not> ?v ''bar@^1.0.0''" and v2: "\<not> ?v ''bar baz''"
    by (simp_all add: validNames_def)
  have u1: "getProp scenario (replaceNodeModules (replaceBackslashes ''bar@^1.0.0'')) = Undefined"
    and u2: "getProp scenario (replaceNodeModules (replaceBackslashes ''bar baz'')) = Undefined"
    by (simp_all add: scenario_def getProp_def replaceBackslashes_def objectPrototypeKeys_def)
  have b: "collectLocationsFromSpecs ?v ?s scenario [] = Inr []"
    by (simp add: collectLocationsFromSpecs_def)
  have r: "readLockfile ?s scenario = Inr (scenario, [''foo/bar'' \<mapsto> [''foo'']])"
    by (rule scenario_readLockfile) (simp add: semverFacts_def)
  have m: "bySpec ?s scenario ''bar'' ''^1.0.0'' [] = [''foo/bar'']"
    by (simp add: scenario_def run_defs)
  have n: "CHR ''@'' \<notin> set (tl ''bar baz'')"
    by simp
  have "collectLocationsFromSpecs ?v ?s scenario [''bar@^1.0.0''] = Inr [''foo/bar'']"
    using v1 u1 b m
      spec_first_at_or_error[where validate = ?v and satisfies = ?s and pkgs = scenario
        and spec = "''bar@^1.0.0''" and before = "[]" and collected = "[]"
        and nm = "''bar''" and rng = "''^1.0.0''" and after = "[]"]
    by simp
  moreover
  have "explain 2 ?v ?s scenario [''bar baz''] = Some (Inl (invalidSpec ''bar baz''))"
    using v2 u2 b n r
      spec_first_at_or_error[where validate = ?v and satisfies = ?s and pkgs = scenario
        and spec = "''bar baz''" and before = "[]" and collected = "[]" and after = "[]"
        and deps = "[''foo/bar'' \<mapsto> [''foo'']]" and fuel = 2]
    by simp
  ultimately show ?thesis
    using v1 v2 u1 u2 b r n by simp
qed

text \<open>
  C6 as the specification states it fails: the split is not at the last \<^verbatim>\<open>@\<close>. On a lockfile
  with the scoped package \<^verbatim>\<open>foo/@s/bar\<close>, the spec \<^verbatim>\<open>foo/@s/bar@\<close> matches nothing, where the
  split at its last \<^verbatim>\<open>@\<close> gives the name \<^verbatim>\<open>foo/@s/bar\<close> and the range \<^verbatim>\<open>*\<close>, which match the
  location \<^verbatim>\<open>foo/@s/bar\<close>.
\<close>

theorem spec_last_at_counterexample:
  "\<not> validNames [] ''foo/@s/bar@''
   \<and> \<not> hasOwn nested_scoped (replaceNodeModules (replaceBackslashes ''foo/@s/bar@''))
   \<and> collectLocationsFromSpecs (validNames []) (semverFacts [(''1.0.0'', ''^1.0.0'')])
     nested_scoped [''foo/@s/bar@''] = Inr []
   \<and> splitAtLastAt ''foo/@s/bar@'' = Some (''foo/@s/bar'', ''*'')
   \<and> bySpec (semverFacts [(''1.0.0'', ''^1.0.0'')]) nested_scoped ''foo/@s/bar'' ''*'' []
       = [''foo/@s/bar'']"
  by (simp add: nested_scoped_def run_defs splitAtLastAt_def lastIndexOf_def)

text \<open>
  The case the statement above leaves out: for a spec that names a member of
  \<^verbatim>\<open>Object.prototype\<close>, \<^verbatim>\<open>packages[maybeLoc]\<close> is truthy, \<^verbatim>\<open>byLocation\<close> adds nothing, and the
  spec is passed over without an error.
\<close>

lemma prototype_spec_skipped:
  assumes "\<not> validate ''__proto__''"
  shows "collectLocationsFromSpecs validate satisfies scenario [''__proto__''] = Inr []"
  using assms by (simp add: scenario_def run_defs)

text \<open>
  C8, as the code has it. A spec that is not a valid bare name and whose normalised form
  (backslashes replaced by \<^verbatim>\<open>/\<close>, then every \<^verbatim>\<open>/node_modules/\<close> by \<^verbatim>\<open>/\<close>) is a key of the
  lockfile matches exactly that one location.
\<close>

theorem explicit_location:
  assumes "\<not> validate spec"
    and "hasOwn pkgs (replaceNodeModules (replaceBackslashes spec))"
  shows "collectLocationsFromSpecs validate satisfies pkgs [spec]
           = Inr [replaceNodeModules (replaceBackslashes spec)]"
  using assms
  by (auto simp: collectLocationsFromSpecs_def truthy_def getProp_def hasOwn_def
      byLocation_def add_def)

theorem explicit_location_witness:
  "\<not> validNames [''bar''] (''foo'' @ [CHR 0x5C] @ ''node_modules/bar'')
   \<and> replaceNodeModules (replaceBackslashes (''foo'' @ [CHR 0x5C] @ ''node_modules/bar''))
       = ''foo/bar''
   \<and> hasOwn scenario ''foo/bar''
   \<and> collectLocationsFromSpecs (validNames [''bar'']) (semverFacts []) scenario
        [''foo'' @ [CHR 0x5C] @ ''node_modules/bar''] = Inr [''foo/bar'']"
proof -
  have v: "\<not> validNames [''bar''] (''foo'' @ [CHR 0x5C] @ ''node_modules/bar'')"
    by (simp add: validNames_def)
  have n: "replaceNodeModules (replaceBackslashes (''foo'' @ [CHR 0x5C] @ ''node_modules/bar''))
             = ''foo/bar''"
    by (simp add: replaceBackslashes_def)
  have h: "hasOwn scenario ''foo/bar''"
    by (simp add: hasOwn_def scenario_def)
  show ?thesis
    using v n h
      explicit_location[of "validNames [''bar'']" "''foo'' @ [CHR 0x5C] @ ''node_modules/bar''"
        scenario "semverFacts []"]
    by simp
qed

text \<open>
  C8 as the specification states it fails for a spec that is a valid bare name: \<^verbatim>\<open>bar\<close> is
  a key of the lockfile, and the query \<^verbatim>\<open>bar\<close> is matched by name and returns the nested
  \<^verbatim>\<open>foo/bar\<close> as well.
\<close>

theorem explicit_location_counterexample:
  "validNames [''bar''] ''bar''
   \<and> replaceNodeModules (replaceBackslashes ''bar'') = ''bar''
   \<and> hasOwn hoisted_and_nested ''bar''
   \<and> collectLocationsFromSpecs (validNames [''bar'']) (semverFacts [(''2.0.0'', ''^2.0.0'')])
        hoisted_and_nested [''bar''] = Inr [''bar'', ''foo/bar'']"
  by (simp add: hoisted_and_nested_def run_defs)

text \<open>
  Let the validator accept only non-empty names with no \<^verbatim>\<open>@\<close> after the first character
  (as validate-npm-package-name does), and let \<open>n\<close> be a valid name. Unless the
  normalised form of \<^verbatim>\<open>n@*\<close> is a key of \<^verbatim>\<open>packages\<close>, the query \<^verbatim>\<open>n@*\<close> collects what the
  query \<open>n\<close> collects.
\<close>

lemma star_query_unless_key:
  assumes validator: "\<And>s. validate s \<Longrightarrow> s \<noteq> [] \<and> CHR ''@'' \<notin> set (tl s)"
    and "validate n"
    and "\<not> hasOwn pkgs (replaceNodeModules (replaceBackslashes (n @ ''@*'')))"
  shows "collectLocationsFromSpecs validate satisfies pkgs [n @ ''@*'']
           = collectLocationsFromSpecs validate satisfies pkgs [n]"
proof -
  from validator[OF assms(2)] have n: "n \<noteq> []" "CHR ''@'' \<notin> set (tl n)"
    by auto
  then have "CHR ''@'' \<in> set (tl (n @ ''@*''))"
    by (cases n) auto
  with validator[of "n @ ''@*''"] have inv: "\<not> validate (n @ ''@*'')"
    by blast
  have "CHR ''@'' \<in> set (replaceNodeModules (replaceBackslashes (n @ ''@*'')))"
    by (intro at_replaceNodeModules at_replaceBackslashes) simp
  then have "replaceNodeModules (replaceBackslashes (n @ ''@*'')) \<notin> set objectPrototypeKeys"
    by (rule not_prototype_key)
  with assms(3)
  have u: "getProp pkgs (replaceNodeModules (replaceBackslashes (n @ ''@*''))) = Undefined"
    by (auto simp: getProp_def hasOwn_def)
  have "collectSpecs validate satisfies pkgs ((n @ ''@*'') # []) [] =
          collectSpecs validate satisfies pkgs [] (bySpec satisfies pkgs n ''*'' [])"
    using inv u n
      collectSpecs_name_range[where validate = validate and spec = "n @ ''@*''"
        and pkgs = pkgs and nm = n and rng = "''*''" and satisfies = satisfies
        and specs = "[]" and collected = "[]"]
    by simp
  then show ?thesis
    using assms(2) by (simp add: collectLocationsFromSpecs_def bySpec_def)
qed


text \<open>
  C7. The keys of a lockfile are locations, and no location ends in \<^verbatim>\<open>@*\<close> (see
  \<open>location_no_star_suffix\<close> below). For every such lockfile and every valid bare name
  \<open>n\<close>, the query \<^verbatim>\<open>n@*\<close> matches the same locations as the bare query \<open>n\<close>. The validator
  is taken to accept only non-empty names with no \<^verbatim>\<open>@\<close> after the first character.
\<close>

theorem star_query_same_as_bare:
  assumes validator: "\<And>s. validate s \<Longrightarrow> s \<noteq> [] \<and> CHR ''@'' \<notin> set (tl s)"
    and "validate n"
    and keys: "list_all (\<lambda>key. \<not> endsWith key ''@*'') (map fst pkgs)"
  shows "collectLocationsFromSpecs validate satisfies pkgs [n @ ''@*'']
           = collectLocationsFromSpecs validate satisfies pkgs [n]"
proof -
  let ?k = "replaceNodeModules (replaceBackslashes (n @ ''@*''))"
  have e: "endsWith ?k ''@*''"
    by (simp only: replaceBackslashes_at_star replaceNodeModules_at_star endsWith_append)
  have "\<not> hasOwn pkgs ?k"
  proof
    assume "hasOwn pkgs ?k"
    then have "?k \<in> fst ` set pkgs"
      by (auto simp: hasOwn_def dest!: map_of_SomeD intro: rev_image_eqI)
    with keys have "\<not> endsWith ?k ''@*''"
      by (auto simp: list_all_iff)
    with e show False by simp
  qed
  with validator assms(2) show ?thesis
    by (rule star_query_unless_key)
qed

theorem star_query_same_as_bare_witness:
  "validNames [''bar''] ''bar''
   \<and> list_all (\<lambda>key. \<not> endsWith key ''@*'') (map fst scenario)
   \<and> collectLocationsFromSpecs (validNames [''bar'']) (semverFacts []) scenario [''bar@*'']
       = Inr [''foo/bar'']
   \<and> collectLocationsFromSpecs (validNames [''bar'']) (semverFacts []) scenario [''bar'']
       = Inr [''foo/bar'']"
proof -
  have v: "\<And>s. validNames [''bar''] s \<Longrightarrow> s \<noteq> [] \<and> CHR ''@'' \<notin> set (tl s)"
    by (simp add: validNames_def)
  have b: "validNames [''bar''] ''bar''"
    by (simp add: validNames_def)
  have k: "list_all (\<lambda>key. \<not> endsWith key ''@*'') (map fst scenario)"
    by (simp add: scenario_def endsWith_def)
  have c: "collectLocationsFromSpecs (validNames [''bar'']) (semverFacts []) scenario [''bar'']
             = Inr [''foo/bar'']"
    using b by (rule scenario_collect)
  show ?thesis
    using v b k c
      star_query_same_as_bare[where validate = "validNames [''bar'']" and n = "''bar''"
        and pkgs = scenario and satisfies = "semverFacts []"]
    by simp
qed

text \<open>
  A location is a path of package names, and a package name that starts with \<^verbatim>\<open>@\<close> is a
  scoped one, with a \<^verbatim>\<open>/\<close> in it: so no location ends in \<^verbatim>\<open>@*\<close>.
\<close>

lemma join_last:
  "names \<noteq> [] \<Longrightarrow>
   \<exists>p. join ''/'' names = p @ last names \<and> (p = [] \<or> last p = CHR ''/'')"
proof (induction names)
  case Nil
  then show ?case by simp
next
  case (Cons x rest)
  show ?case
  proof (cases rest)
    case Nil
    then show ?thesis by simp
  next
    case (Cons y ys)
    with Cons.IH obtain p where p: "join ''/'' rest = p @ last rest" "p = [] \<or> last p = CHR ''/''"
      by auto
    have "join ''/'' (x # rest) = (x @ ''/'' @ p) @ last (x # rest)"
      using Cons p(1) by simp
    moreover have "last (x @ ''/'' @ p) = CHR ''/''"
      using p(2) by auto
    ultimately show ?thesis by blast
  qed
qed

lemma location_no_star_suffix:
  assumes validator: "\<And>s. validate s \<Longrightarrow>
      s \<noteq> [] \<and> CHR ''@'' \<notin> set (tl s) \<and> (startsWithAt s \<longrightarrow> CHR ''/'' \<in> set s)"
    and "isLocation validate key"
  shows "\<not> endsWith key ''@*''"
proof
  assume e: "endsWith key ''@*''"
  from assms(2) obtain names where n: "names \<noteq> []" "list_all validate names"
    "join ''/'' names = key"
    by (auto simp: isLocation_def)
  let ?s = "last names"
  from n have "validate ?s" by (simp add: list_all_iff)
  from validator[OF this] have s: "?s \<noteq> []" "CHR ''@'' \<notin> set (tl ?s)"
    "startsWithAt ?s \<longrightarrow> CHR ''/'' \<in> set ?s" by auto
  from join_last[OF n(1)] n(3) obtain p where p: "key = p @ ?s" "p = [] \<or> last p = CHR ''/''"
    by auto
  from e obtain q where q: "key = q @ ''@*''"
    by (metis endsWith_def append_take_drop_id)
  from s(1) obtain t c where t: "?s = t @ [c]"
    by (metis rev_exhaust)
  with p q have c: "c = CHR ''*''" and pt: "p @ t = q @ ''@''"
    by (auto simp: append_eq_append_conv2 Cons_eq_append_conv append_eq_Cons_conv)
  show False
  proof (cases t rule: rev_cases)
    case Nil
    with pt p(2) show False by auto
  next
    case (snoc t' d)
    with pt have d: "d = CHR ''@''" by auto
    show False
    proof (cases t')
      case Nil
      with snoc d t c have "?s = ''@*''" by simp
      with s(3) show False by (simp add: startsWithAt_def)
    next
      case (Cons a as)
      with snoc d t have "CHR ''@'' \<in> set (tl ?s)" by simp
      with s(2) show False ..
    qed
  qed
qed

text \<open>
  An object with the key \<^verbatim>\<open>bar@*\<close>, which is not a location: there the query \<^verbatim>\<open>bar@*\<close> is
  taken as that key.
\<close>

lemma star_key_explicit_location:
  "collectLocationsFromSpecs (validNames [''bar'']) (semverFacts []) star_key [''bar@*'']
     = Inr [''bar@*'']
   \<and> collectLocationsFromSpecs (validNames [''bar'']) (semverFacts []) star_key [''bar'']
     = Inr [''bar'']"
  by (simp add: star_key_def run_defs)

section \<open>The Formatter\<close>








section \<open>The Why-tree Builder\<close>

text \<open>A record whose id has no \<^verbatim>\<open>@\<close> from index 1 on yields \<^verbatim>\<open>undefined\<close>.\<close>

lemma makeWhy_malformed:
  assumes "getProp pkgs location = Own info" and "indexOf (name_version info) CHR ''@'' 1 \<le> 0"
  shows "makeWhy (Suc fuel) pkgs deps location = Some (Inr None)"
  using assms by simp

text \<open>
  C3 fails in the code: the array \<^verbatim>\<open>explain\<close> returns is filtered, the inner
  \<^verbatim>\<open>dependents\<close> arrays are not. With a malformed record \<^verbatim>\<open>bad\<close> that depends on \<^verbatim>\<open>bar\<close>,
  the Why-node of \<^verbatim>\<open>bar\<close> holds \<^verbatim>\<open>undefined\<close> among its dependents, and \<^verbatim>\<open>format\<close> of the
  result throws a TypeError.
\<close>

theorem malformed_dependent_breaks_format:
  "explain 2 (validNames [''bar'']) (semverFacts [(''1.2.0'', ''*'')]) malformed_dependent
     [''bar''] = Some (Inr [Why ''bar'' ''1.2.0'' ''bar'' [None]])
   \<and> format False (semverFacts [(''1.2.0'', ''*'')]) malformed_dependent
        (Some [Why ''bar'' ''1.2.0'' ''bar'' [None]]) = Inl TypeError"
  by (simp add: malformed_dependent_def run_defs format_defs numeral_2_eq_2)

section \<open>The Reverse Index Builder\<close>

text \<open>
  For one declared dependency whose name is not the name of a member of
  \<^verbatim>\<open>Object.prototype\<close>, or is a key of the lockfile: the location is appended to the
  dependents of the first candidate that is in the lockfile with a version satisfying the
  range, and no other edge is made; with no such candidate the index is unchanged.
\<close>

lemma scanCandidates_first_match:
  assumes "\<And>c. c \<in> set cands \<Longrightarrow> getProp pkgs c \<noteq> Inherited"
  shows "scanCandidates satisfies pkgs location rng cands deps =
           Inr (case find (eligible satisfies pkgs rng) cands of
                  None \<Rightarrow> deps
                | Some c \<Rightarrow> push deps c location)"
  using assms
proof (induction cands)
  case Nil
  then show ?case by simp
next
  case (Cons c cands)
  then have ih: "scanCandidates satisfies pkgs location rng cands deps =
           Inr (case find (eligible satisfies pkgs rng) cands of
                  None \<Rightarrow> deps
                | Some c \<Rightarrow> push deps c location)"
    by simp
  from Cons.prems have ni: "getProp pkgs c \<noteq> Inherited" by simp
  show ?case
  proof (cases "map_of pkgs c")
    case None
    then have "\<not> eligible satisfies pkgs rng c" by (simp add: eligible_def)
    moreover from None ni have "getProp pkgs c = Undefined"
      by (simp add: getProp_def split: if_splits)
    ultimately show ?thesis using ih by simp
  next
    case (Some info)
    then have g: "getProp pkgs c = Own info" by (simp add: getProp_def)
    show ?thesis
    proof (cases "eligible satisfies pkgs rng c")
      case True
      with Some have "0 < indexOf (name_version info) CHR ''@'' 1"
        and "satisfies (sliceFrom (name_version info)
               (indexOf (name_version info) CHR ''@'' 1 + 1)) rng"
        by (simp_all add: eligible_def Let_def)
      with g True show ?thesis by (simp add: Let_def)
    next
      case False
      with Some have "\<not> (0 < indexOf (name_version info) CHR ''@'' 1
          \<and> satisfies (sliceFrom (name_version info)
               (indexOf (name_version info) CHR ''@'' 1 + 1)) rng)"
        by (simp add: eligible_def Let_def)
      with g False ih show ?thesis by (auto simp: Let_def)
    qed
  qed
qed

lemma yieldPrefixes_slash: "c \<in> set (yieldPrefixes parts n nm) \<Longrightarrow> CHR ''/'' \<in> set c"
  by (induction n) auto

lemma candidates_not_inherited:
  assumes "depName \<notin> set objectPrototypeKeys \<or> hasOwn pkgs depName"
    and "c \<in> set (iterateLocations location depName)"
  shows "getProp pkgs c \<noteq> Inherited"
proof (cases "c = depName")
  case True
  with assms(1) show ?thesis
    by (auto simp: getProp_def hasOwn_def split: option.splits)
next
  case False
  with assms(2) have "CHR ''/'' \<in> set c"
    by (auto simp: iterateLocations_def Let_def dest: yieldPrefixes_slash)
  then have "c \<notin> set objectPrototypeKeys"
    by (auto simp: objectPrototypeKeys_def)
  then show ?thesis
    by (auto simp: getProp_def split: option.splits)
qed

lemma declaration_first_match:
  assumes "depName \<notin> set objectPrototypeKeys \<or> hasOwn pkgs depName"
  shows "scanCandidates satisfies pkgs location rng (iterateLocations location depName) deps =
           Inr (case find (eligible satisfies pkgs rng) (iterateLocations location depName) of
                  None \<Rightarrow> deps
                | Some c \<Rightarrow> push deps c location)"
  using candidates_not_inherited[OF assms] by (rule scanCandidates_first_match)

text \<open>
  C4 fails in the code: a declared dependency named like a member of \<^verbatim>\<open>Object.prototype\<close>
  that no candidate resolves makes \<^verbatim>\<open>readLockfile\<close>, and every \<^verbatim>\<open>explain\<close> call, throw a
  TypeError.
\<close>

theorem prototype_dependency_throws:
  "readLockfile satisfies prototype_dependency = Inl TypeError
   \<and> explain fuel validate satisfies prototype_dependency specs = Some (Inl TypeError)"
  by (simp add: prototype_dependency_def run_defs)

section \<open>Termination of makeWhy\<close>

lemma indexInv_push:
  assumes "indexInv pkgs deps" and "map_of pkgs key = Some info" and "wellFormedId info"
    and "location \<in> fst ` set pkgs"
  shows "indexInv pkgs (push deps key location)"
  unfolding indexInv_def
proof (intro allI impI)
  fix k ds
  assume a: "push deps key location k = Some ds"
  show "(\<exists>info. map_of pkgs k = Some info \<and> wellFormedId info) \<and> set ds \<subseteq> fst ` set pkgs"
  proof (cases "k = key")
    case True
    show ?thesis
    proof (cases "deps key")
      case None
      with a True have "ds = [location]" by (simp add: push_def)
      with True assms show ?thesis by simp
    next
      case (Some old)
      with assms(1) have "set old \<subseteq> fst ` set pkgs" by (simp add: indexInv_def)
      moreover from a True Some have "ds = old @ [location]" by (simp add: push_def)
      ultimately show ?thesis using True assms by simp
    qed
  next
    case False
    with a have "deps k = Some ds" by (simp add: push_def)
    with assms(1) show ?thesis by (simp add: indexInv_def)
  qed
qed

lemma scanCandidates_inv:
  assumes "indexInv pkgs deps" and "location \<in> fst ` set pkgs"
    and "scanCandidates satisfies pkgs location rng cands deps = Inr deps'"
  shows "indexInv pkgs deps'"
  using assms
proof (induction cands)
  case Nil
  then show ?case by simp
next
  case (Cons c cands)
  show ?case
  proof (cases "getProp pkgs c")
    case Undefined
    with Cons show ?thesis by simp
  next
    case Inherited
    with Cons.prems show ?thesis by simp
  next
    case (Own info)
    then have m: "map_of pkgs c = Some info"
      by (auto simp: getProp_def split: option.splits if_splits)
    show ?thesis
    proof (cases "wellFormedId info \<and> satisfies (sliceFrom (name_version info) (indexOf (name_version info) CHR ''@'' 1 + 1)) rng")
      case True
      with Own Cons.prems have "deps' = push deps c location"
        by (simp add: wellFormedId_def Let_def)
      with True m Cons.prems show ?thesis
        by (simp add: indexInv_push)
    next
      case False
      with Own Cons.prems have "scanCandidates satisfies pkgs location rng cands deps = Inr deps'"
        by (auto simp: wellFormedId_def Let_def split: if_splits)
      with Cons show ?thesis by simp
    qed
  qed
qed

lemma scanEntries_inv:
  assumes "indexInv pkgs deps" and "location \<in> fst ` set pkgs"
    and "scanEntries satisfies pkgs location entries deps = Inr deps'"
  shows "indexInv pkgs deps'"
  using assms
proof (induction entries arbitrary: deps)
  case Nil
  then show ?case by simp
next
  case (Cons e entries)
  obtain depName rng where e: "e = (depName, rng)" by (cases e)
  with Cons.prems obtain d1 where
    1: "scanCandidates satisfies pkgs location rng (iterateLocations location depName) deps = Inr d1"
    and 2: "scanEntries satisfies pkgs location entries d1 = Inr deps'"
    by (auto split: sum.splits)
  from scanCandidates_inv[OF Cons.prems(1,2) 1] have "indexInv pkgs d1" .
  from Cons.IH[OF this Cons.prems(2) 2] show ?case .
qed

lemma scanDeps_inv:
  assumes "indexInv pkgs deps" and "location \<in> fst ` set pkgs"
    and "scanDeps satisfies pkgs location ds deps = Inr deps'"
  shows "indexInv pkgs deps'"
  using assms scanEntries_inv by (cases ds) (auto simp: scanDeps_def)

lemma scanPackages_inv:
  assumes "indexInv pkgs deps" and "set todo \<subseteq> set pkgs"
    and "scanPackages satisfies pkgs todo deps = Inr deps'"
  shows "indexInv pkgs deps'"
  using assms
proof (induction todo arbitrary: deps)
  case Nil
  then show ?case by simp
next
  case (Cons p todo)
  obtain location info where p: "p = (location, info)" by (cases p)
  with Cons.prems(2) have l: "location \<in> fst ` set pkgs" by force
  from p Cons.prems(3) obtain d1 d2 where
    1: "scanDeps satisfies pkgs location (dependencies (package info)) deps = Inr d1"
    and 2: "scanDeps satisfies pkgs location (optionalDependencies (package info)) d1 = Inr d2"
    and 3: "scanPackages satisfies pkgs todo d2 = Inr deps'"
    by (auto split: sum.splits)
  have "indexInv pkgs d2"
    using scanDeps_inv[OF scanDeps_inv[OF Cons.prems(1) l 1] l 2] .
  with Cons.IH[of d2] Cons.prems(2) 3 show ?case by simp
qed

lemma readLockfile_inv:
  assumes "readLockfile satisfies lockfile = Inr (pkgs, deps)"
  shows "pkgs = lockfile \<and> indexInv pkgs deps"
proof -
  from assms have p: "pkgs = lockfile"
    and s: "scanPackages satisfies lockfile lockfile Map.empty = Inr deps"
    by (auto simp: readLockfile_def split: sum.splits)
  have "indexInv lockfile Map.empty" by (simp add: indexInv_def)
  from scanPackages_inv[OF this _ s] p show ?thesis by simp
qed

lemma key_is_own: "location \<in> fst ` set pkgs \<Longrightarrow> \<exists>info. getProp pkgs location = Own info"
  by (cases "map_of pkgs location") (auto simp: getProp_def map_of_eq_None_iff)

lemma mapWhy_cong_Some:
  assumes "\<And>l r. l \<in> set ls \<Longrightarrow> f l = Some r \<Longrightarrow> g l = Some r"
    and "mapWhy f ls = Some R"
  shows "mapWhy g ls = Some R"
  using assms
proof (induction ls arbitrary: R)
  case Nil
  then show ?case by simp
next
  case (Cons l ls)
  from Cons.prems(2) obtain r where fl: "f l = Some r"
    by (cases "f l") auto
  with Cons.prems(1) have gl: "g l = Some r" by simp
  show ?case
  proof (cases r)
    case (Inl e)
    with fl gl Cons.prems(2) show ?thesis by simp
  next
    case (Inr w)
    with fl Cons.prems(2) obtain R' where m: "mapWhy f ls = Some R'"
      by (cases "mapWhy f ls") auto
    with Cons.IH[of R'] Cons.prems(1) have "mapWhy g ls = Some R'" by simp
    with m fl gl Inr Cons.prems(2) show ?thesis by simp
  qed
qed

lemma makeWhy_Suc:
  "makeWhy fuel pkgs deps location = Some r \<Longrightarrow> makeWhy (Suc fuel) pkgs deps location = Some r"
proof (induction fuel arbitrary: location r)
  case 0
  then show ?case by simp
next
  case (Suc fuel)
  have step: "\<And>ls R. mapWhy (\<lambda>loc. makeWhy fuel pkgs deps loc) ls = Some R \<Longrightarrow>
            mapWhy (\<lambda>loc. makeWhy (Suc fuel) pkgs deps loc) ls = Some R"
    using Suc.IH by (rule mapWhy_cong_Some)
  from Suc.prems show ?case
    apply (subst makeWhy.simps)
    apply (subst (asm) makeWhy.simps)
    apply (auto simp: Let_def split: property.splits option.splits sum.splits if_splits dest!: step simp del: makeWhy.simps)
    done
qed

lemma makeWhy_mono:
  "fuel \<le> fuel' \<Longrightarrow> makeWhy fuel pkgs deps location = Some r \<Longrightarrow>
   makeWhy fuel' pkgs deps location = Some r"
  by (induction fuel' ) (auto simp: le_Suc_eq makeWhy_Suc simp del: makeWhy.simps)

lemma mapWhy_all_return:
  assumes "\<And>l. l \<in> set ls \<Longrightarrow> \<exists>fuel w. makeWhy fuel pkgs deps l = Some (Inr w)"
  shows "\<exists>fuel ws. mapWhy (\<lambda>loc. makeWhy fuel pkgs deps loc) ls = Some (Inr ws)"
  using assms
proof (induction ls)
  case Nil
  then show ?case by simp
next
  case (Cons l ls)
  then obtain n w where n: "makeWhy n pkgs deps l = Some (Inr w)" by force
  from Cons obtain m ws where m: "mapWhy (\<lambda>loc. makeWhy m pkgs deps loc) ls = Some (Inr ws)"
    by force
  have "makeWhy (max n m) pkgs deps l = Some (Inr w)"
    using n by (rule makeWhy_mono[rotated]) simp
  moreover have "mapWhy (\<lambda>loc. makeWhy (max n m) pkgs deps loc) ls = Some (Inr ws)"
    using _ m by (rule mapWhy_cong_Some) (auto intro: makeWhy_mono[rotated])
  ultimately have "mapWhy (\<lambda>loc. makeWhy (max n m) pkgs deps loc) (l # ls) = Some (Inr (w # ws))"
    by simp
  then show ?case by blast
qed

lemma finite_dependentEdges_sub:
  assumes "indexInv pkgs deps"
  shows "dependentEdges deps \<subseteq> (fst ` set pkgs) \<times> (fst ` set pkgs)"
  proof
    fix e assume "e \<in> dependentEdges deps"
    then obtain k d ds where e: "e = (k, d)" "deps k = Some ds" "d \<in> set ds"
      by (auto simp: dependentEdges_def)
    with assms have "(\<exists>info. map_of pkgs k = Some info \<and> wellFormedId info) \<and> set ds \<subseteq> fst ` set pkgs"
      unfolding indexInv_def by blast
    then obtain info where "map_of pkgs k = Some info" and "set ds \<subseteq> fst ` set pkgs" by blast
    then have "k \<in> fst ` set pkgs" "d \<in> fst ` set pkgs"
      using e(3) by (auto dest!: map_of_SomeD intro: rev_image_eqI)
    with e(1) show "e \<in> (fst ` set pkgs) \<times> (fst ` set pkgs)" by simp
  qed

lemma finite_dependentEdges:
  assumes "indexInv pkgs deps"
  shows "finite (dependentEdges deps)"
  using finite_dependentEdges_sub[OF assms] by (rule finite_subset) simp

lemma acyclic_returns:
  assumes inv: "indexInv pkgs deps" and ac: "acyclic (dependentEdges deps)"
  shows "location \<in> fst ` set pkgs \<Longrightarrow> \<exists>fuel w. makeWhy fuel pkgs deps location = Some (Inr w)"
proof -
  have "wf ((dependentEdges deps)\<inverse>)"
    using finite_dependentEdges[OF inv] ac by (rule finite_acyclic_wf_converse)
  then show "location \<in> fst ` set pkgs \<Longrightarrow> \<exists>fuel w. makeWhy fuel pkgs deps location = Some (Inr w)"
  proof (induction location rule: wf_induct_rule)
    case (less location)
    from key_is_own[OF less.prems] obtain info where own: "getProp pkgs location = Own info" ..
    show ?case
    proof (cases "deps location")
      case None
      with own have "\<exists>w. makeWhy (Suc 0) pkgs deps location = Some (Inr w)"
        by (simp add: Let_def)
      then show ?thesis by blast
    next
      case (Some ls)
      have "\<And>l. l \<in> set ls \<Longrightarrow> \<exists>fuel w. makeWhy fuel pkgs deps l = Some (Inr w)"
      proof -
        fix l assume l: "l \<in> set ls"
        with Some have "(l, location) \<in> (dependentEdges deps)\<inverse>"
          by (auto simp: dependentEdges_def)
        moreover from inv Some l have "l \<in> fst ` set pkgs"
          by (auto simp: indexInv_def)
        ultimately show "\<exists>fuel w. makeWhy fuel pkgs deps l = Some (Inr w)"
          by (rule less.IH)
      qed
      from mapWhy_all_return[OF this] obtain n ws where
        "mapWhy (\<lambda>loc. makeWhy n pkgs deps loc) ls = Some (Inr ws)" by blast
      with own Some have "\<exists>w. makeWhy (Suc n) pkgs deps location = Some (Inr w)"
        by (simp add: Let_def)
      then show ?thesis by blast
    qed
  qed
qed

lemma mapWhy_no_error:
  assumes "\<And>l e. l \<in> set ls \<Longrightarrow> f l \<noteq> Some (Inl e)"
  shows "mapWhy f ls \<noteq> Some (Inl e)"
  using assms
  by (induction ls) (auto split: option.splits sum.splits)

lemma makeWhy_no_error:
  assumes inv: "indexInv pkgs deps"
  shows "location \<in> fst ` set pkgs \<Longrightarrow> makeWhy fuel pkgs deps location \<noteq> Some (Inl e)"
proof (induction fuel arbitrary: location e)
  case 0
  then show ?case by simp
next
  case (Suc fuel)
  from key_is_own[OF Suc.prems] obtain info where own: "getProp pkgs location = Own info" ..
  show ?case
  proof (cases "deps location")
    case None
    with own show ?thesis by (simp add: Let_def)
  next
    case (Some ls)
    with inv have "set ls \<subseteq> fst ` set pkgs" by (auto simp: indexInv_def)
    with Suc.IH have "mapWhy (\<lambda>loc. makeWhy fuel pkgs deps loc) ls \<noteq> Some (Inl e)"
      by (intro mapWhy_no_error) blast
    with own Some show ?thesis
      by (auto simp: Let_def split: option.splits sum.splits)
  qed
qed

lemma mapWhy_out_of_fuel:
  assumes "y \<in> set ls" and "f y = None"
    and "\<And>l e. l \<in> set ls \<Longrightarrow> f l \<noteq> Some (Inl e)"
  shows "mapWhy f ls = None"
  using assms
proof (induction ls)
  case Nil
  then show ?case by simp
next
  case (Cons l ls)
  show ?case
  proof (cases "f l")
    case None
    then show ?thesis by simp
  next
    case (Some r)
    with Cons.prems(3)[of l] obtain w where r: "r = Inr w" by (cases r) auto
    from Some Cons.prems(1,2) have "y \<in> set ls" by auto
    with Cons.IH Cons.prems(2,3) have "mapWhy f ls = None" by simp
    with Some r show ?thesis by simp
  qed
qed

lemma cycle_diverges:
  assumes inv: "indexInv pkgs deps"
  shows "(x, x) \<in> (dependentEdges deps)\<^sup>+ \<Longrightarrow> makeWhy fuel pkgs deps x = None"
proof (induction fuel arbitrary: x)
  case 0
  then show ?case by simp
next
  case (Suc fuel)
  from Suc.prems obtain y where xy: "(x, y) \<in> dependentEdges deps"
    and yx: "(y, x) \<in> (dependentEdges deps)\<^sup>*"
    by (blast dest: tranclD)
  then have "(y, y) \<in> (dependentEdges deps)\<^sup>+" by (rule rtrancl_into_trancl1[rotated])
  then have y: "makeWhy fuel pkgs deps y = None" by (rule Suc.IH)
  from xy obtain ls where ls: "deps x = Some ls" "y \<in> set ls"
    by (auto simp: dependentEdges_def)
  from inv ls(1) have "(\<exists>info. map_of pkgs x = Some info \<and> wellFormedId info) \<and> set ls \<subseteq> fst ` set pkgs"
    unfolding indexInv_def by blast
  then obtain info where info: "map_of pkgs x = Some info" "wellFormedId info"
    and sub: "set ls \<subseteq> fst ` set pkgs"
    by blast
  have "mapWhy (\<lambda>loc. makeWhy fuel pkgs deps loc) ls = None"
    using ls(2) y
  proof (rule mapWhy_out_of_fuel)
    fix l e assume "l \<in> set ls"
    with sub have "l \<in> fst ` set pkgs" by auto
    then show "makeWhy fuel pkgs deps l \<noteq> Some (Inl e)"
      by (rule makeWhy_no_error[OF inv])
  qed
  with info ls show ?case
    by (simp add: getProp_def wellFormedId_def Let_def)
qed

text \<open>Whatever \<^verbatim>\<open>makeWhy\<close> returns for a location is the result described by \<open>resultFor\<close>.\<close>

lemma mapWhy_results:
  assumes "\<And>l w. l \<in> set ls \<Longrightarrow> f l = Some (Inr w) \<Longrightarrow> resultFor pkgs deps l w"
    and "mapWhy f ls = Some (Inr ws)"
  shows "resultsFor pkgs deps ls ws"
  using assms
proof (induction ls arbitrary: ws)
  case Nil
  then show ?case by simp
next
  case (Cons l ls)
  from Cons.prems(2) obtain w ws' where w: "f l = Some (Inr w)"
    and m: "mapWhy f ls = Some (Inr ws')" and ws: "ws = w # ws'"
    by (auto split: option.splits sum.splits)
  from Cons.prems(1)[of l w] w have "resultFor pkgs deps l w" by simp
  moreover from Cons.IH[of ws'] Cons.prems(1) m have "resultsFor pkgs deps ls ws'" by simp
  ultimately show ?case using ws by simp
qed

lemma makeWhy_result:
  "makeWhy fuel pkgs deps location = Some (Inr w) \<Longrightarrow> resultFor pkgs deps location w"
proof (induction fuel arbitrary: location w)
  case 0
  then show ?case by simp
next
  case (Suc fuel)
  from Suc.prems obtain info where own: "getProp pkgs location = Own info"
    by (cases "getProp pkgs location") simp_all
  then have m: "map_of pkgs location = Some info"
    by (auto simp: getProp_def split: option.splits if_splits)
  show ?case
  proof (cases "wellFormedId info")
    case False
    with own Suc.prems have "w = None"
      by (simp add: wellFormedId_def Let_def)
    with m False show ?thesis by simp
  next
    case True
    show ?thesis
    proof (cases "deps location")
      case None
      with own True Suc.prems m show ?thesis
        by (auto simp: wellFormedId_def Let_def)
    next
      case (Some ls)
      with own True Suc.prems obtain ws where
        ws: "mapWhy (\<lambda>loc. makeWhy fuel pkgs deps loc) ls = Some (Inr ws)"
        and w: "w = Some (Why (slice (name_version info) 0 (indexOf (name_version info) CHR ''@'' 1))
                    (sliceFrom (name_version info) (indexOf (name_version info) CHR ''@'' 1 + 1))
                    location ws)"
        by (auto simp: wellFormedId_def Let_def split: option.splits sum.splits)
      have "resultsFor pkgs deps ls ws"
      proof (rule mapWhy_results[OF _ ws])
        fix l w' assume "makeWhy fuel pkgs deps l = Some (Inr w')"
        then show "resultFor pkgs deps l w'" by (rule Suc.IH)
      qed
      with w m True Some show ?thesis by simp
    qed
  qed
qed

text \<open>
  C10, as the code has it. Let \<^verbatim>\<open>readLockfile\<close> return the index \<open>deps\<close>. If \<open>deps\<close> is
  acyclic, then for every location of the lockfile \<^verbatim>\<open>makeWhy\<close> returns once the nesting
  bound is large enough, and it returns the result of \<open>resultFor\<close>: the finite tree of the
  location when the id of its record has an \<^verbatim>\<open>@\<close> from index 1 on, \<^verbatim>\<open>undefined\<close> when it has
  none. If \<open>deps\<close> has a cycle, then for some location of the lockfile \<^verbatim>\<open>makeWhy\<close> exceeds
  every nesting bound: it does not return (in JavaScript the recursion ends in a stack
  overflow).
\<close>

theorem makeWhy_terminates_iff_acyclic:
  assumes "readLockfile satisfies lockfile = Inr (pkgs, deps)"
  shows "(acyclic (dependentEdges deps) \<longrightarrow>
            (\<forall>location \<in> fst ` set lockfile.
               \<exists>fuel w. makeWhy fuel pkgs deps location = Some (Inr w)
                 \<and> resultFor pkgs deps location w))
       \<and> (\<not> acyclic (dependentEdges deps) \<longrightarrow>
            (\<exists>location \<in> fst ` set lockfile.
               \<forall>fuel. makeWhy fuel pkgs deps location = None))"
proof -
  from readLockfile_inv[OF assms] have p: "pkgs = lockfile" and inv: "indexInv pkgs deps"
    by auto
  show ?thesis
  proof (intro conjI impI ballI)
    fix location
    assume "acyclic (dependentEdges deps)" and "location \<in> fst ` set lockfile"
    then obtain fuel w where "makeWhy fuel pkgs deps location = Some (Inr w)"
      using acyclic_returns[OF inv] p by blast
    then show "\<exists>fuel w. makeWhy fuel pkgs deps location = Some (Inr w)
                 \<and> resultFor pkgs deps location w"
      using makeWhy_result by blast
  next
    assume "\<not> acyclic (dependentEdges deps)"
    then obtain x where x: "(x, x) \<in> (dependentEdges deps)\<^sup>+"
      by (auto simp: acyclic_def)
    then obtain y where "(x, y) \<in> dependentEdges deps"
      by (blast dest: tranclD)
    then have "(x, y) \<in> (fst ` set pkgs) \<times> (fst ` set pkgs)"
      using finite_dependentEdges_sub[OF inv] by blast
    then have "x \<in> fst ` set pkgs"
      by simp
    moreover from x have "\<forall>fuel. makeWhy fuel pkgs deps x = None"
      using cycle_diverges[OF inv] by blast
    ultimately show "\<exists>location \<in> fst ` set lockfile. \<forall>fuel. makeWhy fuel pkgs deps location = None"
      using p by blast
  qed
qed

lemma scenario_edges:
  "dependentEdges [''foo/bar'' \<mapsto> [''foo'']] = {(''foo/bar'', ''foo'')}"
  by (auto simp: dependentEdges_def split: if_splits)

lemma mutual_dependency_readLockfile:
  "readLockfile (semverFacts [(''1.0.0'', ''*'')]) mutual_dependency
     = Inr (mutual_dependency, [''b'' \<mapsto> [''a''], ''a'' \<mapsto> [''b'']])"
  by (simp add: mutual_dependency_def run_defs)

lemma mutual_dependency_cycle:
  "\<not> acyclic (dependentEdges [''b'' \<mapsto> [''a''], ''a'' \<mapsto> [''b'']])"
proof -
  let ?E = "dependentEdges [''b'' \<mapsto> [''a''], ''a'' \<mapsto> [''b'']]"
  have "(''a'', ''b'') \<in> ?E" and "(''b'', ''a'') \<in> ?E"
    by (simp_all add: dependentEdges_def)
  then have "(''a'', ''a'') \<in> ?E\<^sup>+"
    by (meson trancl.simps)
  then show ?thesis
    by (auto simp: acyclic_def)
qed

theorem makeWhy_terminates_iff_acyclic_witness:
  "readLockfile (semverFacts [(''1.2.0'', ''^1.0.0'')]) scenario
     = Inr (scenario, [''foo/bar'' \<mapsto> [''foo'']])
   \<and> acyclic (dependentEdges [''foo/bar'' \<mapsto> [''foo'']])
   \<and> (\<exists>fuel w. makeWhy fuel scenario [''foo/bar'' \<mapsto> [''foo'']] ''foo/bar'' = Some (Inr w)
         \<and> resultFor scenario [''foo/bar'' \<mapsto> [''foo'']] ''foo/bar'' w)
   \<and> makeWhy 2 scenario [''foo/bar'' \<mapsto> [''foo'']] ''foo/bar''
       = Some (Inr (Some (Why ''bar'' ''1.2.0'' ''foo/bar''
                            [Some (Why ''foo'' ''1.0.0'' ''foo'' [])])))
   \<and> resultFor scenario [''foo/bar'' \<mapsto> [''foo'']] ''foo/bar''
        (Some (Why ''bar'' ''1.2.0'' ''foo/bar'' [Some (Why ''foo'' ''1.0.0'' ''foo'' [])]))
   \<and> readLockfile (semverFacts [(''1.0.0'', ''*'')]) mutual_dependency
       = Inr (mutual_dependency, [''b'' \<mapsto> [''a''], ''a'' \<mapsto> [''b'']])
   \<and> \<not> acyclic (dependentEdges [''b'' \<mapsto> [''a''], ''a'' \<mapsto> [''b'']])
   \<and> (\<exists>location \<in> fst ` set mutual_dependency.
         \<forall>fuel. makeWhy fuel mutual_dependency [''b'' \<mapsto> [''a''], ''a'' \<mapsto> [''b'']] location
                  = None)"
proof -
  have r1: "readLockfile (semverFacts [(''1.2.0'', ''^1.0.0'')]) scenario
              = Inr (scenario, [''foo/bar'' \<mapsto> [''foo'']])"
    by (rule scenario_readLockfile) (simp add: semverFacts_def)
  have "acyclic ({} :: (string \<times> string) set)"
    by (simp add: acyclic_def)
  then have a1: "acyclic (dependentEdges [''foo/bar'' \<mapsto> [''foo'']])"
    by (simp add: scenario_edges)
  have k1: "''foo/bar'' \<in> fst ` set scenario"
    by (simp add: scenario_def)
  have t: "resultFor scenario [''foo/bar'' \<mapsto> [''foo'']] ''foo/bar''
        (Some (Why ''bar'' ''1.2.0'' ''foo/bar'' [Some (Why ''foo'' ''1.0.0'' ''foo'' [])]))"
    by (simp add: scenario_def entry_def wellFormedId_def indexOf_def slice_def sliceFrom_def
        relIndex_def)
  note t1 = makeWhy_terminates_iff_acyclic[OF r1]
  note t2 = makeWhy_terminates_iff_acyclic[OF mutual_dependency_readLockfile]
  have m: "makeWhy 2 scenario [''foo/bar'' \<mapsto> [''foo'']] ''foo/bar''
       = Some (Inr (Some (Why ''bar'' ''1.2.0'' ''foo/bar''
                            [Some (Why ''foo'' ''1.0.0'' ''foo'' [])])))"
    using scenario_makeWhy[of 0] by (simp only: numeral_2_eq_2)
  from t1 a1 k1 t2 mutual_dependency_cycle r1 mutual_dependency_readLockfile t m
  show ?thesis
    by blast
qed

text \<open>
  C10 as the specification states it fails for a starting location whose id is malformed:
  the index of the lockfile below is acyclic, the query \<^verbatim>\<open>bad\<close> makes \<^verbatim>\<open>bad\<close> a starting
  location, and \<^verbatim>\<open>makeWhy\<close> returns \<^verbatim>\<open>undefined\<close> for it, not a tree.
\<close>

lemma malformed_dependent_readLockfile:
  "readLockfile (semverFacts [(''1.2.0'', ''*'')]) malformed_dependent
     = Inr (malformed_dependent, [''bar'' \<mapsto> [''bad'']])"
  by (simp add: malformed_dependent_def run_defs)

lemma malformed_dependent_edges:
  "dependentEdges [''bar'' \<mapsto> [''bad'']] = {(''bar'', ''bad'')}"
  by (auto simp: dependentEdges_def split: if_splits)

theorem malformed_start_counterexample:
  "readLockfile (semverFacts [(''1.2.0'', ''*'')]) malformed_dependent
     = Inr (malformed_dependent, [''bar'' \<mapsto> [''bad'']])
   \<and> acyclic (dependentEdges [''bar'' \<mapsto> [''bad'']])
   \<and> collectLocationsFromSpecs (validNames [''bad'']) (semverFacts [(''1.2.0'', ''*'')])
        malformed_dependent [''bad''] = Inr [''bad'']
   \<and> makeWhy 1 malformed_dependent [''bar'' \<mapsto> [''bad'']] ''bad'' = Some (Inr None)
   \<and> makeWhy 2 malformed_dependent [''bar'' \<mapsto> [''bad'']] ''bad'' = Some (Inr None)"
proof -
  have "acyclic ({} :: (string \<times> string) set)"
    by (simp add: acyclic_def)
  then have "acyclic (dependentEdges [''bar'' \<mapsto> [''bad'']])"
    by (simp add: malformed_dependent_edges)
  moreover have "makeWhy 1 malformed_dependent [''bar'' \<mapsto> [''bad'']] ''bad'' = Some (Inr None)"
    "makeWhy 2 malformed_dependent [''bar'' \<mapsto> [''bad'']] ''bad'' = Some (Inr None)"
    by (simp_all add: malformed_dependent_def run_defs numeral_2_eq_2)
  moreover have "collectLocationsFromSpecs (validNames [''bad'']) (semverFacts [(''1.2.0'', ''*'')])
        malformed_dependent [''bad''] = Inr [''bad'']"
    by (simp add: malformed_dependent_def run_defs)
  ultimately show ?thesis
    using malformed_dependent_readLockfile by simp
qed

end
